theory Spec2Isabelle
  imports Main "HOL-Library.AList" "HOL-Library.Sublist"
begin

section \<open>The file system\<close>

text \<open>
  RivalsPatcher.py works on the file system through \<^verbatim>\<open>pathlib\<close>, \<^verbatim>\<open>os.walk\<close> and
  \<^verbatim>\<open>shutil\<close>.  A path is the list of its components below the root of the drive, a
  regular file is its bytes, and a directory is the list of its entries in the order in
  which \<^verbatim>\<open>os.scandir\<close> reports them.  The whole file system is the root directory's node.
  File metadata (the modification time that \<^verbatim>\<open>shutil.copy2\<close> carries over), permissions,
  symbolic links and the case-insensitive names of Windows are outside the model, so the
  only failures are those the tree itself decides: a regular file where a directory is
  needed, a directory where a file is needed, a missing file.
\<close>

type_synonym path = "string list"

datatype node = File string | Dir "(string \<times> node) list"

text \<open>
  Every exception of the file-system calls is a subclass of \<^verbatim>\<open>OSError\<close>
  (\<^verbatim>\<open>FileExistsError\<close>, \<^verbatim>\<open>NotADirectoryError\<close>, \<^verbatim>\<open>IsADirectoryError\<close>,
  \<^verbatim>\<open>FileNotFoundError\<close>, \<^verbatim>\<open>PermissionError\<close>, \<^verbatim>\<open>shutil.SameFileError\<close>), and
  \<^verbatim>\<open>IOError\<close> is another name of \<^verbatim>\<open>OSError\<close> in Python 3, so one constructor
  stands for all of them.  \<^verbatim>\<open>NameError\<close> is what the evaluation of an unbound global name
  raises, \<^verbatim>\<open>ValueError\<close> what \<^verbatim>\<open>Path.relative_to\<close> raises.
\<close>

datatype error = NameError | OSError | ValueError

fun lookup :: "node \<Rightarrow> path \<Rightarrow> node option" where
  "lookup t [] = Some t"
| "lookup (File c) (n # p) = None"
| "lookup (Dir es) (n # p) = (case map_of es n of None \<Rightarrow> None | Some t \<Rightarrow> lookup t p)"

text \<open>\<^verbatim>\<open>Path.exists()\<close>, \<^verbatim>\<open>Path.is_dir()\<close>, and the bytes of a regular file.\<close>

definition exists_path :: "node \<Rightarrow> path \<Rightarrow> bool" where
  "exists_path fs p = (case lookup fs p of None \<Rightarrow> False | Some t \<Rightarrow> True)"

definition is_dir :: "node \<Rightarrow> path \<Rightarrow> bool" where
  "is_dir fs p = (case lookup fs p of Some (Dir es) \<Rightarrow> True | Some (File c) \<Rightarrow> False | None \<Rightarrow> False)"

definition file_at :: "node \<Rightarrow> path \<Rightarrow> string option" where
  "file_at fs p = (case lookup fs p of Some (File c) \<Rightarrow> Some c | Some (Dir es) \<Rightarrow> None | None \<Rightarrow> None)"

text \<open>\<^verbatim>\<open>Path.parent\<close> (the root is its own parent) and \<^verbatim>\<open>os.path.basename\<close>.\<close>

definition parent :: "path \<Rightarrow> path" where
  "parent p = butlast p"

definition basename :: "path \<Rightarrow> string" where
  "basename p = (if p = [] then [] else last p)"

text \<open>\<^verbatim>\<open>p.relative_to(root)\<close>: the components of \<open>p\<close> below \<open>root\<close>, a \<^verbatim>\<open>ValueError\<close>
  when \<open>p\<close> is not below \<open>root\<close>.\<close>

definition relative_to :: "path \<Rightarrow> path \<Rightarrow> error + path" where
  "relative_to p root = (if prefix root p then Inr (drop (length root) p) else Inl ValueError)"

text \<open>
  \<^verbatim>\<open>p.mkdir(parents=True, exist_ok=True)\<close>: every missing directory of \<open>p\<close> is created, an
  existing directory is left as it is, and a regular file on the way (or at \<open>p\<close>) is an
  \<^verbatim>\<open>OSError\<close> raised before anything is created.
\<close>

fun new_dirs :: "path \<Rightarrow> node" where
  "new_dirs [] = Dir []"
| "new_dirs (n # p) = Dir [(n, new_dirs p)]"

fun mkdir :: "node \<Rightarrow> path \<Rightarrow> error + node" where
  "mkdir (Dir es) [] = Inr (Dir es)"
| "mkdir (File c) p = Inl OSError"
| "mkdir (Dir es) (n # p) =
     (case map_of es n of
        None \<Rightarrow> Inr (Dir (AList.update n (new_dirs p) es))
      | Some t \<Rightarrow>
          (case mkdir t p of
             Inl e \<Rightarrow> Inl e
           | Inr t' \<Rightarrow> Inr (Dir (AList.update n t' es))))"

text \<open>
  \<^verbatim>\<open>open(p, 'wb')\<close> followed by writing \<open>c\<close>: an existing regular file is replaced, a
  missing one is created in its existing parent directory; a directory at \<open>p\<close>, a missing
  parent or a regular file on the way is an \<^verbatim>\<open>OSError\<close>.
\<close>

fun write_file :: "node \<Rightarrow> path \<Rightarrow> string \<Rightarrow> error + node" where
  "write_file (File old) [] c = Inr (File c)"
| "write_file (Dir es) [] c = Inl OSError"
| "write_file (File old) (n # p) c = Inl OSError"
| "write_file (Dir es) (n # p) c =
     (case map_of es n of
        None \<Rightarrow> (if p = [] then Inr (Dir (AList.update n (File c) es)) else Inl OSError)
      | Some t \<Rightarrow>
          (case write_file t p c of
             Inl e \<Rightarrow> Inl e
           | Inr t' \<Rightarrow> Inr (Dir (AList.update n t' es))))"

text \<open>
  \<^verbatim>\<open>shutil.copy2(src, dst)\<close>: when \<open>dst\<close> is a directory the file goes into it under the
  base name of \<open>src\<close>; copying a file onto itself is \<^verbatim>\<open>SameFileError\<close>; a source that is
  missing or is a directory cannot be opened for reading.
\<close>

definition copy2 :: "node \<Rightarrow> path \<Rightarrow> path \<Rightarrow> error + node" where
  "copy2 fs src dst =
     (let dst' = (if is_dir fs dst then dst @ [basename src] else dst) in
      case lookup fs src of
        None \<Rightarrow> Inl OSError
      | Some (Dir es) \<Rightarrow> Inl OSError
      | Some (File c) \<Rightarrow> (if dst' = src then Inl OSError else write_file fs dst' c))"

text \<open>
  \<^verbatim>\<open>os.walk(top)\<close>, top-down: one \<open>(root, files)\<close> pair for the directory itself, then the
  pairs of its subdirectories in turn; \<open>files\<close> are the names of the entries that are not
  directories.  A \<open>top\<close> that is missing or is a regular file yields nothing: \<^verbatim>\<open>os.walk\<close>
  swallows the error of \<^verbatim>\<open>scandir\<close> (its \<^verbatim>\<open>onerror\<close> is \<^verbatim>\<open>None\<close>).  The second component
  of the triples, the directory names, is not used by the program.
\<close>

definition file_names :: "(string \<times> node) list \<Rightarrow> string list" where
  "file_names es = concat (map (\<lambda>(n, t). case t of File c \<Rightarrow> [n] | Dir x \<Rightarrow> []) es)"

fun walk :: "path \<Rightarrow> node \<Rightarrow> (path \<times> string list) list" where
  "walk root (File c) = []"
| "walk root (Dir es) = (root, file_names es) # concat (map (\<lambda>(n, t). walk (root @ [n]) t) es)"

definition os_walk :: "node \<Rightarrow> path \<Rightarrow> (path \<times> string list) list" where
  "os_walk fs top_dir = (case lookup fs top_dir of None \<Rightarrow> [] | Some t \<Rightarrow> walk top_dir t)"

section \<open>The module's global names\<close>

text \<open>
  Line 169 evaluates \<^verbatim>\<open>datetime.now().strftime('%Y%m%d_%H%M%S')\<close>.  Python looks the name
  \<^verbatim>\<open>datetime\<close> up among the module's globals when the line runs.  These are the names the
  module binds at top level: its imports (lines 2 to 6 and 68 to 74), its constants and
  its functions.
\<close>

definition module_names :: "string list" where
  "module_names =
     [''os'', ''sys'', ''subprocess'', ''time'', ''Path'',
      ''REQUIRED_PACKAGES'', ''ensure_packages'',
      ''zipfile'', ''tempfile'', ''Fore'', ''Style'', ''init'', ''shutil'', ''getpass'',
      ''itertools'', ''ctypes'',
      ''NEON'', ''ACCENT'', ''WARN'', ''ERR'', ''INFO'', ''NORMAL'',
      ''set_opacity'', ''clear_console'', ''is_admin'', ''loading_animation'',
      ''load_user'', ''save_user'', ''verify_user'',
      ''backup_original_files'', ''copy_tree_over'',
      ''find_bloxstrap_versions'', ''find_zip_candidate'', ''patch_custom_sky'', ''main'']"

text \<open>
  The value of line 169 under the global names \<open>names\<close>, when the clock would format to
  \<open>now\<close>: a \<^verbatim>\<open>NameError\<close> unless \<^verbatim>\<open>datetime\<close> is bound.
\<close>

definition timestamp :: "string list \<Rightarrow> string \<Rightarrow> error + string" where
  "timestamp names now = (if ''datetime'' \<in> set names then Inr now else Inl NameError)"

section \<open>File operations and backup\<close>

text \<open>
  A function that changes the file system returns its result, or the exception it raised,
  together with the file system it leaves behind.

  \<^verbatim>\<open>backup_original_files\<close> (lines 149 to 154).
\<close>

fun backup_original_files ::
  "path \<Rightarrow> path list \<Rightarrow> path \<Rightarrow> node \<Rightarrow> (error + unit) \<times> node" where
  "backup_original_files target_root [] backup_root fs = (Inr (), fs)"
| "backup_original_files target_root (src # files_to_replace) backup_root fs =
     (case relative_to src target_root of
        Inl e \<Rightarrow> (Inl e, fs)
      | Inr rel \<Rightarrow>
          (let dest = backup_root @ rel in
           case mkdir fs (parent dest) of
             Inl e \<Rightarrow> (Inl e, fs)
           | Inr fs1 \<Rightarrow>
               (case copy2 fs1 src dest of
                  Inl e \<Rightarrow> (Inl e, fs1)
                | Inr fs2 \<Rightarrow> backup_original_files target_root files_to_replace backup_root fs2)))"

text \<open>
  The first loop of \<^verbatim>\<open>copy_tree_over\<close> (lines 160 to 168): the inner loop over the files
  of one directory, and the outer loop over the pairs of \<^verbatim>\<open>os.walk\<close>.  The loop body
  creates the destination directory of every source file and collects the destination
  paths that exist.
\<close>

fun discover_files ::
  "path \<Rightarrow> path \<Rightarrow> path \<Rightarrow> string list \<Rightarrow> path list \<Rightarrow> node \<Rightarrow> (error + path list) \<times> node" where
  "discover_files src_root dst_root root_path [] files_to_replace fs = (Inr files_to_replace, fs)"
| "discover_files src_root dst_root root_path (f # files) files_to_replace fs =
     (let src_file = root_path @ [f] in
      case relative_to src_file src_root of
        Inl e \<Rightarrow> (Inl e, fs)
      | Inr rel \<Rightarrow>
          (let dst_file = dst_root @ rel in
           case mkdir fs (parent dst_file) of
             Inl e \<Rightarrow> (Inl e, fs)
           | Inr fs1 \<Rightarrow>
               discover_files src_root dst_root root_path files
                 (if exists_path fs1 dst_file then files_to_replace @ [dst_file] else files_to_replace)
                 fs1))"

fun discover ::
  "path \<Rightarrow> path \<Rightarrow> (path \<times> string list) list \<Rightarrow> path list \<Rightarrow> node \<Rightarrow> (error + path list) \<times> node" where
  "discover src_root dst_root [] files_to_replace fs = (Inr files_to_replace, fs)"
| "discover src_root dst_root ((root_path, files) # walked) files_to_replace fs =
     (case discover_files src_root dst_root root_path files files_to_replace fs of
        (Inl e, fs1) \<Rightarrow> (Inl e, fs1)
      | (Inr files_to_replace1, fs1) \<Rightarrow> discover src_root dst_root walked files_to_replace1 fs1)"

text \<open>
  The second loop (lines 175 to 185), with the counters \<^verbatim>\<open>copied\<close> and
  \<^verbatim>\<open>overwritten\<close>.
\<close>

fun copy_files ::
  "path \<Rightarrow> path \<Rightarrow> path \<Rightarrow> string list \<Rightarrow> nat \<times> nat \<Rightarrow> node \<Rightarrow> (error + nat \<times> nat) \<times> node" where
  "copy_files src_root dst_root root_path [] counts fs = (Inr counts, fs)"
| "copy_files src_root dst_root root_path (f # files) (copied, overwritten) fs =
     (let src_file = root_path @ [f] in
      case relative_to src_file src_root of
        Inl e \<Rightarrow> (Inl e, fs)
      | Inr rel \<Rightarrow>
          (let dst_file = dst_root @ rel in
           case mkdir fs (parent dst_file) of
             Inl e \<Rightarrow> (Inl e, fs)
           | Inr fs1 \<Rightarrow>
               (let overwritten1 = (if exists_path fs1 dst_file then overwritten + 1 else overwritten) in
                case copy2 fs1 src_file dst_file of
                  Inl e \<Rightarrow> (Inl e, fs1)
                | Inr fs2 \<Rightarrow>
                    copy_files src_root dst_root root_path files (copied + 1, overwritten1) fs2)))"

fun copy_walk ::
  "path \<Rightarrow> path \<Rightarrow> (path \<times> string list) list \<Rightarrow> nat \<times> nat \<Rightarrow> node \<Rightarrow> (error + nat \<times> nat) \<times> node" where
  "copy_walk src_root dst_root [] counts fs = (Inr counts, fs)"
| "copy_walk src_root dst_root ((root_path, files) # walked) counts fs =
     (case copy_files src_root dst_root root_path files counts fs of
        (Inl e, fs1) \<Rightarrow> (Inl e, fs1)
      | (Inr counts1, fs1) \<Rightarrow> copy_walk src_root dst_root walked counts1 fs1)"

text \<open>
  \<^verbatim>\<open>copy_tree_over\<close> (lines 156 to 186) under the global names \<open>names\<close>, in two parts:
  lines 157 to 174 (the first loop, the timestamp, the backup directory and the backup of
  the files to replace), then lines 175 to 186 (the second loop and the result).  An
  exception in the first part ends the call there.

  The directory list of each loop is the one \<^verbatim>\<open>os.walk\<close> finds when the loop starts.  For
  the first loop this is what the generator yields in any case: its body creates
  directories only, and a directory created during the walk holds no file.  For the second
  loop it is what the generator yields when the loop writes nothing below \<open>src_root\<close>,
  that is when neither root lies below the other.
\<close>

definition backup_dir :: "path \<Rightarrow> string \<Rightarrow> path" where
  "backup_dir dst_root ts = parent dst_root @ [''backups'', ts]"

definition plan_and_backup ::
  "string list \<Rightarrow> string \<Rightarrow> path \<Rightarrow> path \<Rightarrow> node \<Rightarrow> (error + path) \<times> node" where
  "plan_and_backup names now src_root dst_root fs =
     (case discover src_root dst_root (os_walk fs src_root) [] fs of
        (Inl e, fs1) \<Rightarrow> (Inl e, fs1)
      | (Inr files_to_replace, fs1) \<Rightarrow>
          (case timestamp names now of
             Inl e \<Rightarrow> (Inl e, fs1)
           | Inr ts \<Rightarrow>
               (let backup_root = backup_dir dst_root ts in
                case mkdir fs1 backup_root of
                  Inl e \<Rightarrow> (Inl e, fs1)
                | Inr fs2 \<Rightarrow>
                    (case (if files_to_replace \<noteq> []
                           then backup_original_files dst_root files_to_replace backup_root fs2
                           else (Inr (), fs2)) of
                       (Inl e, fs3) \<Rightarrow> (Inl e, fs3)
                     | (Inr u, fs3) \<Rightarrow> (Inr backup_root, fs3)))))"

definition copy_tree_over_in ::
  "string list \<Rightarrow> string \<Rightarrow> path \<Rightarrow> path \<Rightarrow> node \<Rightarrow> (error + nat \<times> nat \<times> path) \<times> node" where
  "copy_tree_over_in names now src_root dst_root fs =
     (case plan_and_backup names now src_root dst_root fs of
        (Inl e, fs3) \<Rightarrow> (Inl e, fs3)
      | (Inr backup_root, fs3) \<Rightarrow>
          (case copy_walk src_root dst_root (os_walk fs3 src_root) (0, 0) fs3 of
             (Inl e, fs4) \<Rightarrow> (Inl e, fs4)
           | (Inr (copied, overwritten), fs4) \<Rightarrow> (Inr (copied, overwritten, backup_root), fs4)))"

text \<open>\<^verbatim>\<open>copy_tree_over\<close> as it runs in this module.\<close>

definition copy_tree_over ::
  "string \<Rightarrow> path \<Rightarrow> path \<Rightarrow> node \<Rightarrow> (error + nat \<times> nat \<times> path) \<times> node" where
  "copy_tree_over now src_root dst_root fs = copy_tree_over_in module_names now src_root dst_root fs"

text \<open>
  The regular files below \<open>src_root\<close>, as absolute paths in the order of the walk: the
  \<^verbatim>\<open>src_file\<close> values of the two loops.
\<close>

definition walk_files :: "(path \<times> string list) list \<Rightarrow> path list" where
  "walk_files walked = concat (map (\<lambda>(root_path, files). map (\<lambda>f. root_path @ [f]) files) walked)"

definition source_files :: "node \<Rightarrow> path \<Rightarrow> path list" where
  "source_files fs src_root = walk_files (os_walk fs src_root)"

section \<open>The loops over relative paths\<close>

text \<open>
  Both loops of \<^verbatim>\<open>copy_tree_over\<close> use a source file only through its path relative to the
  source root.  These are the same loops over the list of the relative paths; the proofs
  about the lines after 169 go through them.
\<close>

fun discover_rels :: "path \<Rightarrow> path list \<Rightarrow> path list \<Rightarrow> node \<Rightarrow> (error + path list) \<times> node" where
  "discover_rels dst_root [] files_to_replace fs = (Inr files_to_replace, fs)"
| "discover_rels dst_root (rel # rels) files_to_replace fs =
     (case mkdir fs (parent (dst_root @ rel)) of
        Inl e \<Rightarrow> (Inl e, fs)
      | Inr fs1 \<Rightarrow>
          discover_rels dst_root rels
            (if exists_path fs1 (dst_root @ rel) then files_to_replace @ [dst_root @ rel]
             else files_to_replace)
            fs1)"

fun copy_rels :: "path \<Rightarrow> path \<Rightarrow> path list \<Rightarrow> nat \<times> nat \<Rightarrow> node \<Rightarrow> (error + nat \<times> nat) \<times> node" where
  "copy_rels src_root dst_root [] counts fs = (Inr counts, fs)"
| "copy_rels src_root dst_root (rel # rels) (copied, overwritten) fs =
     (case mkdir fs (parent (dst_root @ rel)) of
        Inl e \<Rightarrow> (Inl e, fs)
      | Inr fs1 \<Rightarrow>
          (case copy2 fs1 (src_root @ rel) (dst_root @ rel) of
             Inl e \<Rightarrow> (Inl e, fs1)
           | Inr fs2 \<Rightarrow>
               copy_rels src_root dst_root rels
                 (copied + 1, if exists_path fs1 (dst_root @ rel) then overwritten + 1 else overwritten)
                 fs2))"

definition source_rels :: "node \<Rightarrow> path \<Rightarrow> path list" where
  "source_rels fs src_root = map (drop (length src_root)) (source_files fs src_root)"

text \<open>
  What a file system holds for the source tree: \<^verbatim>\<open>os.walk\<close> reports each regular file once
  and reports nothing else as a file.  A tree that lists a name twice in one directory
  is the only one that fails this.
\<close>

definition source_ok :: "node \<Rightarrow> path \<Rightarrow> bool" where
  "source_ok fs src_root =
     (distinct (source_files fs src_root)
      \<and> list_all (\<lambda>p. case file_at fs p of None \<Rightarrow> False | Some c \<Rightarrow> True) (source_files fs src_root))"

section \<open>The sky patcher\<close>

text \<open>
  \<^verbatim>\<open>shutil.rmtree(child, ignore_errors=True)\<close> and \<^verbatim>\<open>child.unlink()\<close> inside
  \<^verbatim>\<open>try ... except: pass\<close>: the entry is gone afterwards, whatever it was, and nothing is
  raised.
\<close>

fun remove :: "node \<Rightarrow> path \<Rightarrow> node" where
  "remove t [] = t"
| "remove (File c) (n # p) = File c"
| "remove (Dir es) [n] = Dir (AList.delete n es)"
| "remove (Dir es) (n # m # p) =
     (case map_of es n of
        None \<Rightarrow> Dir es
      | Some t \<Rightarrow> Dir (AList.update n (remove t (m # p)) es))"

text \<open>
  What \<^verbatim>\<open>tempfile.TemporaryDirectory()\<close> and \<^verbatim>\<open>ZipFile.extractall\<close> leave at the path of
  the temporary directory: the node \<open>x\<close>, placed in an existing parent directory.
\<close>

fun graft :: "node \<Rightarrow> path \<Rightarrow> node \<Rightarrow> error + node" where
  "graft t [] x = Inr x"
| "graft (File c) (n # p) x = Inl OSError"
| "graft (Dir es) (n # p) x =
     (case map_of es n of
        None \<Rightarrow> (if p = [] then Inr (Dir (AList.update n x es)) else Inl OSError)
      | Some t \<Rightarrow>
          (case graft t p x of
             Inl e \<Rightarrow> Inl e
           | Inr t' \<Rightarrow> Inr (Dir (AList.update n t' es))))"

text \<open>\<^verbatim>\<open>Path.iterdir()\<close>: the entries of a directory; an \<^verbatim>\<open>OSError\<close> on anything else.\<close>

definition iterdir :: "node \<Rightarrow> path \<Rightarrow> error + (string \<times> node) list" where
  "iterdir fs d = (case lookup fs d of Some (Dir es) \<Rightarrow> Inr es | Some (File c) \<Rightarrow> Inl OSError | None \<Rightarrow> Inl OSError)"

text \<open>Lines 266 to 273: every child of the sky directory is deleted.\<close>

fun remove_children :: "path \<Rightarrow> string list \<Rightarrow> node \<Rightarrow> node" where
  "remove_children d [] fs = fs"
| "remove_children d (child # children) fs = remove_children d children (remove fs (d @ [child]))"

text \<open>
  \<^verbatim>\<open>patch_custom_sky\<close> (lines 222 to 280) returns nothing; the model returns which of its
  exits it took.  Its inputs besides the file system are: \<open>answer\<close>, the first console
  answer after \<^verbatim>\<open>strip().lower()\<close>; \<open>home\<close>, the value of \<^verbatim>\<open>Path.home()\<close>; \<open>tmpdir\<close>, the
  fresh path \<^verbatim>\<open>tempfile\<close> chooses; \<open>archive\<close>, the entries \<^verbatim>\<open>extractall\<close> unpacks from
  \<^verbatim>\<open>skyboxes.zip\<close>, or \<open>None\<close> when \<^verbatim>\<open>zipfile\<close> raises \<^verbatim>\<open>BadZipFile\<close>; \<open>number\<close>, the value
  of \<^verbatim>\<open>int(input().strip())\<close>, or \<open>None\<close> when it raises \<^verbatim>\<open>ValueError\<close>.  Leaving the
  \<^verbatim>\<open>with\<close> block, by return or by exception, deletes the temporary directory.
\<close>

datatype sky_exit =
  Skipped | SkyboxesNotFound | BadZip | NoSkyboxes | InvalidNumber | InvalidInput
  | Applied nat nat path

definition sky_dir :: "path \<Rightarrow> path" where
  "sky_dir target_version = target_version @ [''PlatformContent'', ''pc'', ''textures'', ''sky'']"

definition sky_dirs_of :: "path \<Rightarrow> (string \<times> node) list \<Rightarrow> path list" where
  "sky_dirs_of tmpdir_path es =
     concat (map (\<lambda>(n, t). case t of Dir x \<Rightarrow> [tmpdir_path @ [n]] | File c \<Rightarrow> []) es)"

text \<open>Lines 263 to 280, from the selection on.\<close>

definition apply_sky ::
  "string list \<Rightarrow> string \<Rightarrow> path \<Rightarrow> path \<Rightarrow> node \<Rightarrow> (error + sky_exit) \<times> node" where
  "apply_sky names now selected target_version fs =
     (let target_sky_dir = sky_dir target_version in
      case (if exists_path fs target_sky_dir
            then (case iterdir fs target_sky_dir of
                    Inl e \<Rightarrow> Inl e
                  | Inr es \<Rightarrow> Inr (remove_children target_sky_dir (map fst es) fs))
            else mkdir fs target_sky_dir) of
        Inl e \<Rightarrow> (Inl e, fs)
      | Inr fs1 \<Rightarrow>
          (case copy_tree_over_in names now selected target_sky_dir fs1 of
             (Inl e, fs2) \<Rightarrow> (Inl e, fs2)
           | (Inr (copied, overwritten, backup_root), fs2) \<Rightarrow>
               (Inr (Applied copied overwritten backup_root), fs2)))"

text \<open>Lines 235 to 280, the body of the \<^verbatim>\<open>with\<close> block.\<close>

definition sky_body ::
  "string list \<Rightarrow> string \<Rightarrow> path \<Rightarrow> path \<Rightarrow> (string \<times> node) list option \<Rightarrow> int option \<Rightarrow> path \<Rightarrow> node
     \<Rightarrow> (error + sky_exit) \<times> node" where
  "sky_body names now sky_zip tmpdir_path archive number target_version fs =
     (case lookup fs sky_zip of
        None \<Rightarrow> (Inl OSError, fs)
      | Some (Dir x) \<Rightarrow> (Inl OSError, fs)
      | Some (File bytes) \<Rightarrow>
          (case archive of
             None \<Rightarrow> (Inr BadZip, fs)
           | Some entries \<Rightarrow>
               (case graft fs tmpdir_path (Dir entries) of
                  Inl e \<Rightarrow> (Inl e, fs)
                | Inr fs1 \<Rightarrow>
                    (case iterdir fs1 tmpdir_path of
                       Inl e \<Rightarrow> (Inl e, fs1)
                     | Inr es \<Rightarrow>
                         (let sky_dirs = sky_dirs_of tmpdir_path es in
                          if sky_dirs = [] then (Inr NoSkyboxes, fs1)
                          else
                            (case number of
                               None \<Rightarrow> (Inr InvalidInput, fs1)
                             | Some choice_num \<Rightarrow>
                                 if \<not> (1 \<le> choice_num \<and> choice_num \<le> int (length sky_dirs))
                                 then (Inr InvalidNumber, fs1)
                                 else apply_sky names now (sky_dirs ! nat (choice_num - 1))
                                        target_version fs1))))))"

definition patch_custom_sky_in ::
  "string list \<Rightarrow> string \<Rightarrow> string \<Rightarrow> path \<Rightarrow> path \<Rightarrow> (string \<times> node) list option \<Rightarrow> int option
     \<Rightarrow> path \<Rightarrow> node \<Rightarrow> (error + sky_exit) \<times> node" where
  "patch_custom_sky_in names now answer home tmpdir_path archive number target_version fs =
     (if answer \<noteq> ''y'' \<and> answer \<noteq> ''yes'' then (Inr Skipped, fs)
      else
        (let sky_zip = home @ [''Documents'', ''rivalsPayload'', ''skyboxes.zip''] in
         if \<not> exists_path fs sky_zip then (Inr SkyboxesNotFound, fs)
         else
           (case graft fs tmpdir_path (Dir []) of
              Inl e \<Rightarrow> (Inl e, fs)
            | Inr fs1 \<Rightarrow>
                (case sky_body names now sky_zip tmpdir_path archive number target_version fs1 of
                   (r, fs2) \<Rightarrow> (r, remove fs2 tmpdir_path)))))"

text \<open>\<^verbatim>\<open>patch_custom_sky\<close> as it runs in this module.\<close>

definition patch_custom_sky ::
  "string \<Rightarrow> string \<Rightarrow> path \<Rightarrow> path \<Rightarrow> (string \<times> node) list option \<Rightarrow> int option
     \<Rightarrow> path \<Rightarrow> node \<Rightarrow> (error + sky_exit) \<times> node" where
  "patch_custom_sky now answer home tmpdir_path archive number target_version fs =
     patch_custom_sky_in module_names now answer home tmpdir_path archive number target_version fs"

section \<open>Example file systems\<close>

text \<open>
  The scenario of the specification's section 8: the source holds \<^verbatim>\<open>a.png\<close> and a new
  \<^verbatim>\<open>b.png\<close>, the destination \<^verbatim>\<open>game/textures\<close> holds the old \<^verbatim>\<open>b.png\<close> and \<^verbatim>\<open>c.png\<close>.
\<close>

definition scenario_fs :: node where
  "scenario_fs =
     Dir [(''src'', Dir [(''a.png'', File ''new a''), (''b.png'', File ''new b 5 KB'')]),
          (''game'', Dir [(''textures'', Dir [(''b.png'', File ''old b 3 KB''), (''c.png'', File ''c'')])])]"

text \<open>A source with one file in a subdirectory, and an empty destination directory.\<close>

definition nested_fs :: node where
  "nested_fs = Dir [(''src'', Dir [(''a'', Dir [(''b.png'', File ''new b'')])]), (''dst'', Dir [])]"

text \<open>A destination that holds a regular file \<^verbatim>\<open>d\<close> where the source has a directory \<^verbatim>\<open>d\<close>.\<close>

definition blocked_fs :: node where
  "blocked_fs =
     Dir [(''src'', Dir [(''d'', Dir [(''a.png'', File ''A'')])]), (''dst'', Dir [(''d'', File ''D'')])]"

text \<open>
  The module's names with \<^verbatim>\<open>datetime\<close> among them, as after
  \<^verbatim>\<open>from datetime import datetime\<close>: the names under which the lines after 169 run.
\<close>

definition names_with_datetime :: "string list" where
  "names_with_datetime = ''datetime'' # module_names"


text \<open>
  A destination that holds a directory \<^verbatim>\<open>b.png\<close> where the source has a regular file
  \<^verbatim>\<open>b.png\<close>: the backup of \<^verbatim>\<open>b.png\<close> fails, since \<^verbatim>\<open>shutil.copy2\<close> cannot read a directory.
\<close>

definition clash_fs :: node where
  "clash_fs =
     Dir [(''src'', Dir [(''b.png'', File ''new b''), (''sub'', Dir [(''a.png'', File ''new a'')])]),
          (''game'', Dir [(''textures'', Dir [(''b.png'', Dir []), (''c.png'', File ''c'')])])]"

text \<open>
  An installation \<^verbatim>\<open>v1\<close> whose sky directory holds \<^verbatim>\<open>b.png\<close> and \<^verbatim>\<open>c.png\<close>, the archive
  \<^verbatim>\<open>skyboxes.zip\<close> with one skybox \<^verbatim>\<open>night\<close> of two files, and the same file system once the
  archive is unpacked into the temporary directory \<^verbatim>\<open>tmp/x1\<close>.
\<close>

definition sky_fs :: node where
  "sky_fs =
     Dir [(''home'', Dir [(''Documents'', Dir [(''rivalsPayload'', Dir [(''skyboxes.zip'', File ''zip'')])])]),
          (''tmp'', Dir []),
          (''v1'', Dir [(''PlatformContent'', Dir [(''pc'', Dir [(''textures'',
              Dir [(''sky'', Dir [(''b.png'', File ''old b''), (''c.png'', File ''c'')])])])])])]"

definition sky_archive :: "(string \<times> node) list" where
  "sky_archive = [(''night'', Dir [(''a.png'', File ''new a''), (''b.png'', File ''new b'')])]"

definition sky_extracted_fs :: node where
  "sky_extracted_fs =
     Dir [(''home'', Dir [(''Documents'', Dir [(''rivalsPayload'', Dir [(''skyboxes.zip'', File ''zip'')])])]),
          (''tmp'', Dir [(''x1'', Dir [(''night'', Dir [(''a.png'', File ''new a''), (''b.png'', File ''new b'')])])]),
          (''v1'', Dir [(''PlatformContent'', Dir [(''pc'', Dir [(''textures'',
              Dir [(''sky'', Dir [(''b.png'', File ''old b''), (''c.png'', File ''c'')])])])])])]"

text \<open>
  A destination root that is itself named \<^verbatim>\<open>backups\<close>: the backup directory
  \<^verbatim>\<open>backups/<timestamp>\<close> then lies inside the destination tree.
\<close>

definition backups_named_fs :: node where
  "backups_named_fs =
     Dir [(''src'', Dir [(''b.png'', File ''new b'')]),
          (''game'', Dir [(''backups'', Dir [(''b.png'', File ''old b'')])])]"

section \<open>Directories are created, files are left alone\<close>

lemma lookup_update:
  "lookup (Dir (AList.update n x es)) (m # q) = (if m = n then lookup x q else lookup (Dir es) (m # q))"
  by (simp add: update_conv')

lemma file_at_new_dirs: "file_at (new_dirs p) q = None"
proof (induction p arbitrary: q)
  case Nil
  then show ?case by (cases q) (simp_all add: file_at_def)
next
  case (Cons n p)
  show ?case
  proof (cases q)
    case Nil
    then show ?thesis by (simp add: file_at_def)
  next
    case (Cons m q')
    with Cons.IH [of q'] show ?thesis by (simp add: file_at_def)
  qed
qed

lemma file_at_Cons:
  "file_at (Dir es) (m # q) = (case map_of es m of None \<Rightarrow> None | Some t \<Rightarrow> file_at t q)"
  by (simp add: file_at_def split: option.splits)

lemma file_at_update:
  "file_at (Dir (AList.update n x es)) (m # q) = (if m = n then file_at x q else file_at (Dir es) (m # q))"
  unfolding file_at_def lookup_update by simp

lemma mkdir_file_at: "mkdir t p = Inr t' \<Longrightarrow> file_at t' q = file_at t q"
proof (induction t p arbitrary: t' q rule: mkdir.induct)
  case (1 es)
  then show ?case by simp
next
  case (2 c p)
  then show ?case by simp
next
  case (3 es n p t' q)
  show ?case
  proof (cases q)
    case Nil
    with 3 show ?thesis by (auto simp: file_at_def split: option.splits sum.splits)
  next
    case (Cons m q')
    show ?thesis
    proof (cases "map_of es n")
      case None
      then have a: "file_at (Dir es) (n # q') = None" by (simp add: file_at_Cons)
      from None 3 have "t' = Dir (AList.update n (new_dirs p) es)" by simp
      with Cons a show ?thesis by (simp add: file_at_update file_at_new_dirs)
    next
      case (Some t)
      with 3 obtain t1 where m: "mkdir t p = Inr t1" and t': "t' = Dir (AList.update n t1 es)"
        by (auto split: sum.splits)
      from Some have a: "file_at (Dir es) (n # q') = file_at t q'" by (simp add: file_at_Cons)
      from "3.IH" [OF Some m] have "file_at t1 q' = file_at t q'" .
      with Cons a t' show ?thesis by (simp add: file_at_update)
    qed
  qed
qed

lemma mkdir_error: "mkdir t p = Inl e \<Longrightarrow> e = OSError"
  by (induction t p rule: mkdir.induct) (auto split: option.splits sum.splits)


lemma discover_files_file_at:
  "discover_files src dst r fl acc fs = (res, fs') \<Longrightarrow> file_at fs' q = file_at fs q"
proof (induction fl arbitrary: acc fs)
  case Nil
  then show ?case by simp
next
  case (Cons f fl)
  show ?case
  proof (cases "relative_to (r @ [f]) src")
    case (Inl e)
    with Cons.prems show ?thesis by simp
  next
    case (Inr rel)
    show ?thesis
    proof (cases "mkdir fs (parent (dst @ rel))")
      case (Inl e)
      with Inr Cons.prems show ?thesis by simp
    next
      case m: (Inr fs1)
      from Cons.prems Inr m have
        "discover_files src dst r fl
           (if exists_path fs1 (dst @ rel) then acc @ [dst @ rel] else acc) fs1 = (res, fs')"
        by (simp add: Let_def)
      then have "file_at fs' q = file_at fs1 q" by (rule Cons.IH)
      with mkdir_file_at [OF m] show ?thesis by simp
    qed
  qed
qed

lemma discover_file_at:
  "discover src dst w acc fs = (res, fs') \<Longrightarrow> file_at fs' q = file_at fs q"
proof (induction w arbitrary: acc fs)
  case Nil
  then show ?case by simp
next
  case (Cons x w)
  obtain r fl where x: "x = (r, fl)" by (cases x)
  obtain res1 fs1 where d: "discover_files src dst r fl acc fs = (res1, fs1)"
    by (cases "discover_files src dst r fl acc fs")
  have a: "file_at fs1 q = file_at fs q" using d by (rule discover_files_file_at)
  show ?case
  proof (cases res1)
    case (Inl e)
    with Cons.prems x d a show ?thesis by simp
  next
    case (Inr acc1)
    with Cons.prems x d have "discover src dst w acc1 fs1 = (res, fs')" by simp
    then have "file_at fs' q = file_at fs1 q" by (rule Cons.IH)
    with a show ?thesis by simp
  qed
qed

lemma walk_prefix: "(r, fl) \<in> set (walk root t) \<Longrightarrow> prefix root r"
proof (induction root t arbitrary: r fl rule: walk.induct)
  case (1 root c)
  then show ?case by simp
next
  case (2 root es)
  from "2.prems" consider "r = root"
    | n t where "(n, t) \<in> set es" "(r, fl) \<in> set (walk (root @ [n]) t)"
    by auto
  then show ?case
  proof cases
    case 1
    then show ?thesis by simp
  next
    case 2
    then have "prefix (root @ [n]) r" using "2.IH" by blast
    then show ?thesis by (rule append_prefixD)
  qed
qed

lemma os_walk_prefix: "(r, fl) \<in> set (os_walk fs src) \<Longrightarrow> prefix src r"
  by (auto simp: os_walk_def dest: walk_prefix split: option.splits)

lemma discover_files_error:
  "prefix src r \<Longrightarrow> discover_files src dst r fl acc fs = (Inl e, fs') \<Longrightarrow> e = OSError"
proof (induction fl arbitrary: acc fs)
  case Nil
  then show ?case by simp
next
  case (Cons f fl)
  from Cons.prems(1) have p: "prefix src (r @ [f])" by (rule prefix_prefix)
  then have rel: "relative_to (r @ [f]) src = Inr (drop (length src) (r @ [f]))"
    by (simp add: relative_to_def)
  show ?case
  proof (cases "mkdir fs (parent (dst @ drop (length src) (r @ [f])))")
    case (Inl e1)
    with Cons.prems(2) rel mkdir_error [OF Inl] show ?thesis by (simp add: Let_def)
  next
    case (Inr fs1)
    with Cons.prems(2) rel show ?thesis
      using Cons.IH [OF Cons.prems(1)] by (simp add: Let_def)
  qed
qed

lemma discover_error:
  "\<forall>(r, fl) \<in> set w. prefix src r \<Longrightarrow> discover src dst w acc fs = (Inl e, fs') \<Longrightarrow> e = OSError"
proof (induction w arbitrary: acc fs)
  case Nil
  then show ?case by simp
next
  case (Cons x w)
  obtain r fl where x: "x = (r, fl)" by (cases x)
  with Cons.prems(1) have pr: "prefix src r" and rest: "\<forall>(r, fl) \<in> set w. prefix src r" by auto
  obtain res1 fs1 where d: "discover_files src dst r fl acc fs = (res1, fs1)"
    by (cases "discover_files src dst r fl acc fs")
  show ?case
  proof (cases res1)
    case (Inl e1)
    with Cons.prems(2) x d discover_files_error [OF pr] show ?thesis by auto
  next
    case (Inr acc1)
    with Cons.prems(2) x d Cons.IH [OF rest] show ?thesis by auto
  qed
qed

lemma is_dir_Nil: "is_dir t [] = (\<exists>es. t = Dir es)"
  by (cases t) (simp_all add: is_dir_def)

lemma is_dir_Cons:
  "is_dir (Dir es) (m # q) = (case map_of es m of None \<Rightarrow> False | Some t \<Rightarrow> is_dir t q)"
  by (simp add: is_dir_def split: option.splits)

lemma is_dir_File: "is_dir (File c) q = False"
  by (cases q) (simp_all add: is_dir_def)

lemma is_dir_update:
  "is_dir (Dir (AList.update n x es)) (m # q) = (if m = n then is_dir x q else is_dir (Dir es) (m # q))"
  unfolding is_dir_def lookup_update by simp

lemma is_dir_new_dirs: "is_dir (new_dirs p) p"
  by (induction p) (simp_all add: is_dir_Nil is_dir_Cons)

lemma mkdir_is_dir: "mkdir t p = Inr t' \<Longrightarrow> is_dir t' p"
proof (induction t p arbitrary: t' rule: mkdir.induct)
  case (1 es)
  then show ?case by (auto simp: is_dir_Nil)
next
  case (2 c p)
  then show ?case by simp
next
  case (3 es n p t')
  show ?case
  proof (cases "map_of es n")
    case None
    with 3 show ?thesis by (auto simp: is_dir_update is_dir_new_dirs)
  next
    case (Some t)
    with 3 obtain t1 where m: "mkdir t p = Inr t1" and t': "t' = Dir (AList.update n t1 es)"
      by (auto split: sum.splits)
    from "3.IH" [OF Some m] t' show ?thesis by (simp add: is_dir_update)
  qed
qed

lemma mkdir_Dir: "mkdir t p = Inr t' \<Longrightarrow> (\<exists>es. t = Dir es) \<and> (\<exists>es'. t' = Dir es')"
  by (cases t; cases p) (auto split: option.splits sum.splits)

lemma mkdir_keeps_dir: "mkdir t p = Inr t' \<Longrightarrow> is_dir t q \<Longrightarrow> is_dir t' q"
proof (induction t p arbitrary: t' q rule: mkdir.induct)
  case (1 es)
  then show ?case by simp
next
  case (2 c p)
  then show ?case by simp
next
  case (3 es n p t' q)
  show ?case
  proof (cases q)
    case Nil
    with mkdir_Dir [OF "3.prems"(1)] show ?thesis by (auto simp: is_dir_Nil)
  next
    case (Cons m q')
    show ?thesis
    proof (cases "map_of es n")
      case None
      then have a: "\<not> is_dir (Dir es) (n # q')" by (simp add: is_dir_Cons)
      from None 3 have "t' = Dir (AList.update n (new_dirs p) es)" by simp
      with Cons a "3.prems"(2) show ?thesis by (auto simp: is_dir_update)
    next
      case (Some t)
      with 3 obtain t1 where m: "mkdir t p = Inr t1" and t': "t' = Dir (AList.update n t1 es)"
        by (auto split: sum.splits)
      from Some have a: "is_dir (Dir es) (n # q') = is_dir t q'" by (simp add: is_dir_Cons)
      from "3.IH" [OF Some m] have "is_dir t q' \<Longrightarrow> is_dir t1 q'" .
      with Cons a t' "3.prems"(2) show ?thesis by (auto simp: is_dir_update)
    qed
  qed
qed

lemma write_file_keeps_dir: "write_file t p c = Inr t' \<Longrightarrow> is_dir t q \<Longrightarrow> is_dir t' q"
proof (induction t p c arbitrary: t' q rule: write_file.induct)
  case (1 old c)
  then show ?case by (simp add: is_dir_File)
next
  case (2 es c)
  then show ?case by simp
next
  case (3 old n p c)
  then show ?case by simp
next
  case (4 es n p c t' q)
  show ?case
  proof (cases q)
    case Nil
    with "4.prems" show ?thesis by (auto simp: is_dir_Nil split: option.splits sum.splits if_splits)
  next
    case (Cons m q')
    show ?thesis
    proof (cases "map_of es n")
      case None
      then have a: "\<not> is_dir (Dir es) (n # q')" by (simp add: is_dir_Cons)
      from None 4 have "t' = Dir (AList.update n (File c) es)" by (simp split: if_splits)
      with Cons a "4.prems"(2) show ?thesis by (auto simp: is_dir_update)
    next
      case (Some t)
      with 4 obtain t1 where m: "write_file t p c = Inr t1" and t': "t' = Dir (AList.update n t1 es)"
        by (auto split: sum.splits)
      from Some have a: "is_dir (Dir es) (n # q') = is_dir t q'" by (simp add: is_dir_Cons)
      from "4.IH" [OF Some m] have "is_dir t q' \<Longrightarrow> is_dir t1 q'" .
      with Cons a t' "4.prems"(2) show ?thesis by (auto simp: is_dir_update)
    qed
  qed
qed





section \<open>A copy writes one file\<close>

lemma file_at_Nil: "file_at t [] = (case t of File c \<Rightarrow> Some c | Dir es \<Rightarrow> None)"
  by (simp add: file_at_def)

lemma file_at_File_Cons: "file_at (File c) (m # q) = None"
  by (simp add: file_at_def)

lemma write_file_file_at: "write_file t p c = Inr t' \<Longrightarrow> q \<noteq> p \<Longrightarrow> file_at t' q = file_at t q"
proof (induction t p c arbitrary: t' q rule: write_file.induct)
  case (1 old c t' q)
  then show ?case by (cases q) (auto simp: file_at_File_Cons)
next
  case (2 es c)
  then show ?case by simp
next
  case (3 old n p c)
  then show ?case by simp
next
  case (4 es n p c t' q)
  show ?case
  proof (cases q)
    case Nil
    with "4.prems" show ?thesis by (auto simp: file_at_Nil split: option.splits sum.splits if_splits)
  next
    case (Cons m q')
    show ?thesis
    proof (cases "map_of es n")
      case None
      then have a: "file_at (Dir es) (n # q') = None" by (simp add: file_at_Cons)
      from None 4 have t': "t' = Dir (AList.update n (File c) es)" and p: "p = []"
        by (simp_all split: if_splits)
      from p Cons "4.prems"(2) have "m = n \<Longrightarrow> q' \<noteq> []" by simp
      then have "m = n \<Longrightarrow> file_at (File c) q' = None" by (cases q') (simp_all add: file_at_File_Cons)
      with Cons a t' show ?thesis by (simp add: file_at_update)
    next
      case (Some t)
      with 4 obtain t1 where m: "write_file t p c = Inr t1" and t': "t' = Dir (AList.update n t1 es)"
        by (auto split: sum.splits)
      from Some have a: "file_at (Dir es) (n # q') = file_at t q'" by (simp add: file_at_Cons)
      from "4.IH" [OF Some m] have "q' \<noteq> p \<Longrightarrow> file_at t1 q' = file_at t q'" .
      with Cons a t' "4.prems"(2) show ?thesis by (auto simp: file_at_update)
    qed
  qed
qed

lemma copy2_file_at: "copy2 fs src d = Inr fs' \<Longrightarrow> \<not> prefix d q \<Longrightarrow> file_at fs' q = file_at fs q"
  by (auto simp: copy2_def Let_def split: option.splits node.splits if_splits
      intro!: write_file_file_at)

lemma backup_original_files_file_at:
  "backup_original_files target ftr backup fs = (res, fs') \<Longrightarrow> \<not> prefix backup q \<Longrightarrow>
   file_at fs' q = file_at fs q"
proof (induction ftr arbitrary: fs)
  case Nil
  then show ?case by simp
next
  case (Cons src ftr)
  show ?case
  proof (cases "relative_to src target")
    case (Inl e)
    with Cons.prems show ?thesis by simp
  next
    case (Inr rel)
    from Cons.prems(2) have np: "\<not> prefix (backup @ rel) q"
      using append_prefixD by blast
    show ?thesis
    proof (cases "mkdir fs (parent (backup @ rel))")
      case (Inl e)
      with Inr Cons.prems show ?thesis by (simp add: Let_def)
    next
      case m: (Inr fs1)
      have d1: "file_at fs1 q = file_at fs q" using m by (rule mkdir_file_at)
      show ?thesis
      proof (cases "copy2 fs1 src (backup @ rel)")
        case (Inl e)
        with Inr m Cons.prems(1) d1 show ?thesis by (simp add: Let_def)
      next
        case c: (Inr fs2)
        have d2: "file_at fs2 q = file_at fs1 q" using c np by (rule copy2_file_at)
        from Cons.prems(1) Inr m c have "backup_original_files target ftr backup fs2 = (res, fs')"
          by (simp add: Let_def)
        then have "file_at fs' q = file_at fs2 q" using Cons.prems(2) by (rule Cons.IH)
        with d1 d2 show ?thesis by simp
      qed
    qed
  qed
qed

lemma backup_dir_outside:
  assumes "dst \<noteq> []" and "last dst \<noteq> ''backups''" and "prefix dst q"
  shows "\<not> prefix (backup_dir dst ts) q"
proof
  assume a: "prefix (backup_dir dst ts) q"
  from assms(1) obtain d n where dst: "dst = d @ [n]" by (cases dst rule: rev_cases) auto
  with assms(2) have n: "n \<noteq> ''backups''" by simp
  from assms(3) dst obtain r where q1: "q = d @ n # r" by (auto simp: prefix_def)
  from a dst obtain r' where q2: "q = d @ ''backups'' # ts # r'"
    by (auto simp: prefix_def backup_dir_def parent_def)
  from q1 q2 n show False by simp
qed

section \<open>The files of a walk\<close>

lemma walk_files_Nil: "walk_files [] = []"
  by (simp add: walk_files_def)

lemma walk_files_Cons: "walk_files ((r, fl) # w) = map (\<lambda>f. r @ [f]) fl @ walk_files w"
  by (simp add: walk_files_def)

lemma walk_files_append: "walk_files (a @ b) = walk_files a @ walk_files b"
  by (simp add: walk_files_def)

lemma walk_files_concat: "walk_files (concat ws) = concat (map walk_files ws)"
  by (induction ws) (simp_all add: walk_files_Nil walk_files_append)

lemma discover_no_files: "walk_files w = [] \<Longrightarrow> discover src dst w acc fs = (Inr acc, fs)"
proof (induction w)
  case Nil
  then show ?case by simp
next
  case (Cons x w)
  obtain r fl where x: "x = (r, fl)" by (cases x)
  with Cons.prems have "fl = []" and "walk_files w = []" by (simp_all add: walk_files_Cons)
  with Cons.IH x show ?case by simp
qed

lemma copy_walk_no_files: "walk_files w = [] \<Longrightarrow> copy_walk src dst w counts fs = (Inr counts, fs)"
proof (induction w)
  case Nil
  then show ?case by simp
next
  case (Cons x w)
  obtain r fl where x: "x = (r, fl)" by (cases x)
  with Cons.prems have "fl = []" and "walk_files w = []" by (simp_all add: walk_files_Cons)
  with Cons.IH x show ?case by simp
qed

lemma new_dirs_case: "(case new_dirs p of File c \<Rightarrow> f c | Dir x \<Rightarrow> []) = []"
  by (cases p) simp_all

lemma walk_files_new_dirs: "walk_files (walk r (new_dirs p)) = []"
  by (induction p arbitrary: r) (simp_all add: walk_files_Cons walk_files_Nil file_names_def new_dirs_case)

lemma update_absent: "map_of es n = None \<Longrightarrow> AList.update n v es = es @ [(n, v)]"
  by (induction es) (auto split: if_splits)

lemma update_present:
  "map_of es n = Some t \<Longrightarrow>
   \<exists>es1 es2. es = es1 @ (n, t) # es2 \<and> AList.update n v es = es1 @ (n, v) # es2"
proof (induction es)
  case Nil
  then show ?case by simp
next
  case (Cons e es)
  obtain k x where e: "e = (k, x)" by (cases e)
  show ?case
  proof (cases "k = n")
    case True
    with Cons.prems e have "x = t" by simp
    with True e have "e # es = [] @ (n, t) # es \<and> AList.update n v (e # es) = [] @ (n, v) # es"
      by simp
    then show ?thesis by blast
  next
    case False
    with Cons.prems e have "map_of es n = Some t" by simp
    from Cons.IH [OF this] obtain es1 es2 where
      "es = es1 @ (n, t) # es2" "AList.update n v es = es1 @ (n, v) # es2" by blast
    with False e have "e # es = (e # es1) @ (n, t) # es2 \<and>
        AList.update n v (e # es) = (e # es1) @ (n, v) # es2" by simp
    then show ?thesis by blast
  qed
qed

lemma mkdir_walk_files: "mkdir t p = Inr t' \<Longrightarrow> walk_files (walk r t') = walk_files (walk r t)"
proof (induction t p arbitrary: t' r rule: mkdir.induct)
  case (1 es)
  then show ?case by simp
next
  case (2 c p)
  then show ?case by simp
next
  case (3 es n p t' r)
  show ?case
  proof (cases "map_of es n")
    case None
    with 3 have "t' = Dir (es @ [(n, new_dirs p)])" by (simp add: update_absent)
    then show ?thesis
      by (simp add: walk_files_Cons walk_files_append walk_files_new_dirs file_names_def new_dirs_case)
  next
    case (Some t)
    with 3 obtain t1 where m: "mkdir t p = Inr t1" and t': "t' = Dir (AList.update n t1 es)"
      by (auto split: sum.splits)
    from update_present [OF Some] obtain es1 es2 where
      es: "es = es1 @ (n, t) # es2" and up: "AList.update n t1 es = es1 @ (n, t1) # es2" by blast
    from mkdir_Dir [OF m] obtain x x1 where tx: "t = Dir x" "t1 = Dir x1" by blast
    have ih: "walk_files (walk (r @ [n]) t1) = walk_files (walk (r @ [n]) t)"
      using "3.IH" [OF Some m] .
    have nm: "file_names (es1 @ (n, t1) # es2) = file_names (es1 @ (n, t) # es2)"
      using tx by (simp add: file_names_def)
    have "walk_files (walk r (Dir (es1 @ (n, t1) # es2))) = walk_files (walk r (Dir (es1 @ (n, t) # es2)))"
      using ih nm by (simp add: walk_files_Cons walk_files_append)
    with t' up es show ?thesis by simp
  qed
qed

lemma lookup_new_dirs_walk:
  "walk_files (case lookup (new_dirs p) s of None \<Rightarrow> [] | Some u \<Rightarrow> walk r u) = []"
proof (induction p arbitrary: s)
  case Nil
  then show ?case by (cases s) (simp_all add: walk_files_Cons walk_files_Nil file_names_def)
next
  case (Cons n p)
  show ?case
  proof (cases s)
    case Nil
    with walk_files_new_dirs [of r "n # p"] show ?thesis by simp
  next
    case (Cons m s')
    with Cons.IH [of s'] show ?thesis by (simp add: walk_files_Nil)
  qed
qed

lemma mkdir_walk_at:
  "mkdir t p = Inr t' \<Longrightarrow>
   walk_files (case lookup t' s of None \<Rightarrow> [] | Some u \<Rightarrow> walk r u)
     = walk_files (case lookup t s of None \<Rightarrow> [] | Some u \<Rightarrow> walk r u)"
proof (induction t p arbitrary: t' s rule: mkdir.induct)
  case (1 es)
  then show ?case by simp
next
  case (2 c p)
  then show ?case by simp
next
  case (3 es n p t' s)
  show ?case
  proof (cases s)
    case Nil
    with mkdir_walk_files [OF "3.prems"] show ?thesis by simp
  next
    case (Cons m s')
    show ?thesis
    proof (cases "map_of es n")
      case None
      with 3 have t': "t' = Dir (AList.update n (new_dirs p) es)" by simp
      from None have a: "lookup (Dir es) (n # s') = None" by simp
      show ?thesis
        unfolding Cons t' lookup_update using a
        by (simp add: lookup_new_dirs_walk walk_files_Nil)
    next
      case (Some t)
      with 3 obtain t1 where m: "mkdir t p = Inr t1" and t': "t' = Dir (AList.update n t1 es)"
        by (auto split: sum.splits)
      from Some have a: "lookup (Dir es) (n # s') = lookup t s'" by simp
      show ?thesis
        unfolding Cons t' lookup_update using a "3.IH" [OF Some m, of s']
        by simp
    qed
  qed
qed

lemma mkdir_source_files: "mkdir t p = Inr t' \<Longrightarrow> source_files t' s = source_files t s"
  by (simp add: source_files_def os_walk_def mkdir_walk_at)

lemma copy_tree_over_in_no_files:
  assumes "source_files fs src_root = []"
  shows "copy_tree_over_in names now src_root dst_root fs =
     (case timestamp names now of
        Inl e \<Rightarrow> (Inl e, fs)
      | Inr ts \<Rightarrow>
          (case mkdir fs (backup_dir dst_root ts) of
             Inl e \<Rightarrow> (Inl e, fs)
           | Inr fs2 \<Rightarrow> (Inr (0, 0, backup_dir dst_root ts), fs2)))"
proof -
  from assms have w: "walk_files (os_walk fs src_root) = []" by (simp add: source_files_def)
  have d: "discover src_root dst_root (os_walk fs src_root) [] fs = (Inr [], fs)"
    using w by (rule discover_no_files)
  show ?thesis
  proof (cases "timestamp names now")
    case (Inl e)
    with d show ?thesis by (simp add: copy_tree_over_in_def plan_and_backup_def)
  next
    case ts: (Inr ts)
    show ?thesis
    proof (cases "mkdir fs (backup_dir dst_root ts)")
      case (Inl e)
      with d ts show ?thesis by (simp add: copy_tree_over_in_def plan_and_backup_def)
    next
      case m: (Inr fs2)
      from mkdir_source_files [OF m] assms have "walk_files (os_walk fs2 src_root) = []"
        by (simp add: source_files_def)
      then have "copy_walk src_root dst_root (os_walk fs2 src_root) (0, 0) fs2 = (Inr (0, 0), fs2)"
        by (rule copy_walk_no_files)
      with d ts m show ?thesis by (simp add: copy_tree_over_in_def plan_and_backup_def)
    qed
  qed
qed

section \<open>Deleting the children of a directory\<close>

lemma remove_Cons:
  "remove (Dir es) (n # p) =
     (if p = [] then Dir (AList.delete n es)
      else case map_of es n of None \<Rightarrow> Dir es | Some t \<Rightarrow> Dir (AList.update n (remove t p) es))"
  by (cases p) (auto split: option.splits)

lemma lookup_remove_child:
  "lookup fs d = Some (Dir es) \<Longrightarrow> lookup (remove fs (d @ [n])) d = Some (Dir (AList.delete n es))"
proof (induction d arbitrary: fs)
  case Nil
  then show ?case by simp
next
  case (Cons m d)
  from Cons.prems obtain es0 t where fs: "fs = Dir es0" and m: "map_of es0 m = Some t"
    and t: "lookup t d = Some (Dir es)"
    by (cases fs) (auto split: option.splits)
  from Cons.IH [OF t] have "lookup (remove t (d @ [n])) d = Some (Dir (AList.delete n es))" .
  with fs m show ?case by (simp add: remove_Cons update_conv')
qed

lemma lookup_remove_children:
  "lookup fs d = Some (Dir es) \<Longrightarrow>
   lookup (remove_children d ns fs) d = Some (Dir (filter (\<lambda>e. fst e \<notin> set ns) es))"
proof (induction ns arbitrary: fs es)
  case Nil
  then show ?case by simp
next
  case (Cons n ns)
  from lookup_remove_child [OF Cons.prems]
  have "lookup (remove fs (d @ [n])) d = Some (Dir (AList.delete n es))" .
  from Cons.IH [OF this] show ?case
    by (simp add: AList.delete_eq case_prod_unfold neq_commute [of n])
qed

lemma remove_children_empties:
  "lookup fs d = Some (Dir es) \<Longrightarrow> lookup (remove_children d (map fst es) fs) d = Some (Dir [])"
  by (drule lookup_remove_children [where ns = "map fst es"]) simp

section \<open>Which directories and files an operation adds\<close>

lemma exists_path_iff: "exists_path t q = (file_at t q \<noteq> None \<or> is_dir t q)"
  by (auto simp: exists_path_def file_at_def is_dir_def split: option.splits node.splits)

lemma is_dir_prefix: "is_dir t d \<Longrightarrow> prefix q d \<Longrightarrow> is_dir t q"
proof (induction q arbitrary: t d)
  case Nil
  then show ?case by (cases t; cases d) (auto simp: is_dir_Nil is_dir_File)
next
  case (Cons m q)
  from Cons.prems(2) obtain d' where d: "d = m # d'" and p: "prefix q d'"
    by (cases d) auto
  from Cons.prems(1) d obtain es u where t: "t = Dir es" and u: "map_of es m = Some u" and ud: "is_dir u d'"
    by (cases t) (auto simp: is_dir_File is_dir_Cons split: option.splits)
  from Cons.IH [OF ud p] t u show ?case by (simp add: is_dir_Cons)
qed

lemma is_dir_new_dirs_iff: "is_dir (new_dirs p) q = prefix q p"
proof (induction p arbitrary: q)
  case Nil
  then show ?case by (cases q) (auto simp: is_dir_Nil is_dir_Cons)
next
  case (Cons n p)
  then show ?case by (cases q) (auto simp: is_dir_Nil is_dir_Cons)
qed

lemma mkdir_new_dir: "mkdir t d = Inr t' \<Longrightarrow> is_dir t' q \<Longrightarrow> is_dir t q \<or> prefix q d"
proof (induction t d arbitrary: t' q rule: mkdir.induct)
  case (1 es)
  then show ?case by simp
next
  case (2 c p)
  then show ?case by simp
next
  case (3 es n p t' q)
  show ?case
  proof (cases q)
    case Nil
    then show ?thesis by simp
  next
    case (Cons m q')
    show ?thesis
    proof (cases "map_of es n")
      case None
      with 3 have t': "t' = Dir (AList.update n (new_dirs p) es)" by simp
      with "3.prems"(2) Cons show ?thesis
        by (auto simp: is_dir_update is_dir_new_dirs_iff split: if_splits)
    next
      case (Some t)
      with 3 obtain t1 where m: "mkdir t p = Inr t1" and t': "t' = Dir (AList.update n t1 es)"
        by (auto split: sum.splits)
      from Some have a: "is_dir (Dir es) (n # q') = is_dir t q'" by (simp add: is_dir_Cons)
      from "3.IH" [OF Some m] have "is_dir t1 q' \<Longrightarrow> is_dir t q' \<or> prefix q' p" .
      with Cons a t' "3.prems"(2) show ?thesis by (auto simp: is_dir_update split: if_splits)
    qed
  qed
qed

lemma mkdir_is_dir_iff: "mkdir t d = Inr t' \<Longrightarrow> is_dir t' q = (is_dir t q \<or> prefix q d)"
  using mkdir_new_dir mkdir_keeps_dir mkdir_is_dir is_dir_prefix by blast

lemma mkdir_exists: "mkdir t d = Inr t' \<Longrightarrow> exists_path t' q = (exists_path t q \<or> prefix q d)"
  by (simp add: exists_path_iff mkdir_is_dir_iff mkdir_file_at)

lemma write_file_new_dir: "write_file t p c = Inr t' \<Longrightarrow> is_dir t' q \<Longrightarrow> is_dir t q"
proof (induction t p c arbitrary: t' q rule: write_file.induct)
  case (1 old c)
  then show ?case by (auto simp: is_dir_File)
next
  case (2 es c)
  then show ?case by simp
next
  case (3 old n p c)
  then show ?case by simp
next
  case (4 es n p c t' q)
  show ?case
  proof (cases q)
    case Nil
    then show ?thesis by (simp add: is_dir_Nil)
  next
    case (Cons m q')
    show ?thesis
    proof (cases "map_of es n")
      case None
      from None 4 have "t' = Dir (AList.update n (File c) es)" by (simp split: if_splits)
      with Cons "4.prems"(2) show ?thesis by (auto simp: is_dir_update is_dir_File split: if_splits)
    next
      case (Some t)
      with 4 obtain t1 where m: "write_file t p c = Inr t1" and t': "t' = Dir (AList.update n t1 es)"
        by (auto split: sum.splits)
      from Some have a: "is_dir (Dir es) (n # q') = is_dir t q'" by (simp add: is_dir_Cons)
      from "4.IH" [OF Some m] have "is_dir t1 q' \<Longrightarrow> is_dir t q'" .
      with Cons a t' "4.prems"(2) show ?thesis by (auto simp: is_dir_update split: if_splits)
    qed
  qed
qed

lemma write_file_is_dir: "write_file t p c = Inr t' \<Longrightarrow> is_dir t' q = is_dir t q"
  using write_file_new_dir write_file_keeps_dir by blast

lemma write_file_written: "write_file t p c = Inr t' \<Longrightarrow> file_at t' p = Some c"
proof (induction t p c arbitrary: t' rule: write_file.induct)
  case (1 old c)
  then show ?case by (auto simp: file_at_Nil)
next
  case (2 es c)
  then show ?case by simp
next
  case (3 old n p c)
  then show ?case by simp
next
  case (4 es n p c t')
  show ?case
  proof (cases "map_of es n")
    case None
    from None 4 have "t' = Dir (AList.update n (File c) es)" and "p = []" by (simp_all split: if_splits)
    then show ?thesis by (simp add: file_at_update file_at_Nil)
  next
    case (Some t)
    with 4 obtain t1 where m: "write_file t p c = Inr t1" and t': "t' = Dir (AList.update n t1 es)"
      by (auto split: sum.splits)
    from "4.IH" [OF Some m] t' show ?thesis by (simp add: file_at_update)
  qed
qed

lemma copy2_plain:
  assumes "copy2 fs p d = Inr fs'" and "\<not> is_dir fs d"
  shows "file_at fs p \<noteq> None \<and> file_at fs' d = file_at fs p
    \<and> (\<forall>q. q \<noteq> d \<longrightarrow> file_at fs' q = file_at fs q)
    \<and> (\<forall>q. is_dir fs' q = is_dir fs q)"
proof -
  from assms obtain c where l: "lookup fs p = Some (File c)" and w: "write_file fs d c = Inr fs'"
    by (auto simp: copy2_def Let_def split: option.splits node.splits if_splits)
  from l have "file_at fs p = Some c" by (simp add: file_at_def)
  with write_file_written [OF w] write_file_file_at [OF w] write_file_is_dir [OF w]
  show ?thesis by auto
qed

lemma copy2_source: "copy2 fs p d = Inr fs' \<Longrightarrow> file_at fs p \<noteq> None"
  by (auto simp: copy2_def Let_def file_at_def split: option.splits node.splits if_splits)

lemma copy2_is_dir: "copy2 fs p d = Inr fs' \<Longrightarrow> is_dir fs' q = is_dir fs q"
  by (auto simp: copy2_def Let_def split: option.splits node.splits if_splits
      dest: write_file_is_dir)

lemma file_below_file: "file_at t p \<noteq> None \<Longrightarrow> strict_prefix p q \<Longrightarrow> lookup t q = None"
proof (induction p arbitrary: t q)
  case Nil
  then obtain c where "t = File c" by (cases t) (auto simp: file_at_Nil)
  with Nil show ?case by (cases q) auto
next
  case (Cons m p)
  from Cons.prems(2) obtain q' where q: "q = m # q'" and sp: "strict_prefix p q'"
    by (cases q) (auto simp: strict_prefix_def)
  from Cons.prems(1) obtain es u where t: "t = Dir es" and u: "map_of es m = Some u"
    and f: "file_at u p \<noteq> None"
    by (cases t) (auto simp: file_at_File_Cons file_at_Cons split: option.splits)
  from Cons.IH [OF f sp] t u q show ?case by simp
qed

lemma write_file_lookup: "write_file t q c = Inr t' \<Longrightarrow> \<not> prefix s q \<Longrightarrow> lookup t' s = lookup t s"
proof (induction t q c arbitrary: t' s rule: write_file.induct)
  case (1 old c t' s)
  then show ?case by (cases s) auto
next
  case (2 es c)
  then show ?case by simp
next
  case (3 old n p c)
  then show ?case by simp
next
  case (4 es n p c t' s)
  from "4.prems"(2) obtain m s' where s: "s = m # s'" by (cases s) auto
  show ?case
  proof (cases "map_of es n")
    case None
    from None 4 have t': "t' = Dir (AList.update n (File c) es)" and p: "p = []"
      by (simp_all split: if_splits)
    from p s "4.prems"(2) have "m = n \<Longrightarrow> s' \<noteq> []" by auto
    then have "m = n \<Longrightarrow> lookup (File c) s' = None" by (cases s') auto
    with None t' s show ?thesis by (auto simp: update_conv')
  next
    case (Some t)
    with 4 obtain t1 where m: "write_file t p c = Inr t1" and t': "t' = Dir (AList.update n t1 es)"
      by (auto split: sum.splits)
    from s "4.prems"(2) have "m = n \<Longrightarrow> \<not> prefix s' p" by auto
    with "4.IH" [OF Some m] have "m = n \<Longrightarrow> lookup t1 s' = lookup t s'" by blast
    with Some t' s show ?thesis by (auto simp: update_conv')
  qed
qed

lemma copy2_lookup:
  "copy2 fs p d = Inr fs' \<Longrightarrow> \<not> prefix s d \<Longrightarrow> \<not> prefix d s \<Longrightarrow> lookup fs' s = lookup fs s"
proof -
  assume a: "copy2 fs p d = Inr fs'" and b: "\<not> prefix s d" and c: "\<not> prefix d s"
  from a obtain x d' where w: "write_file fs d' x = Inr fs'" and d': "d' = d \<or> d' = d @ [basename p]"
    by (auto simp: copy2_def Let_def split: option.splits node.splits if_splits)
  from d' b c have "\<not> prefix s d'"
    by (auto simp: prefix_snoc)
  with w show ?thesis by (rule write_file_lookup)
qed

section \<open>The loops as loops over relative paths\<close>

lemma discover_rels_append:
  "discover_rels dst (a @ b) acc fs =
     (case discover_rels dst a acc fs of
        (Inl e, fs1) \<Rightarrow> (Inl e, fs1)
      | (Inr acc1, fs1) \<Rightarrow> discover_rels dst b acc1 fs1)"
  by (induction a arbitrary: acc fs) (auto split: sum.splits)

lemma copy_rels_append:
  "copy_rels src dst (a @ b) counts fs =
     (case copy_rels src dst a counts fs of
        (Inl e, fs1) \<Rightarrow> (Inl e, fs1)
      | (Inr counts1, fs1) \<Rightarrow> copy_rels src dst b counts1 fs1)"
proof (induction a arbitrary: counts fs)
  case Nil
  then show ?case by simp
next
  case (Cons rel a)
  obtain c ov where "counts = (c, ov)" by (cases counts)
  with Cons show ?case by (auto split: sum.splits)
qed

lemma relative_to_below: "prefix src r \<Longrightarrow> relative_to (r @ [f]) src = Inr (drop (length src) (r @ [f]))"
  by (simp add: relative_to_def prefix_prefix)

lemma discover_files_rels:
  "prefix src r \<Longrightarrow>
   discover_files src dst r fl acc fs
     = discover_rels dst (map (drop (length src)) (map (\<lambda>f. r @ [f]) fl)) acc fs"
proof (induction fl arbitrary: acc fs)
  case Nil
  then show ?case by simp
next
  case (Cons f fl)
  define rel where "rel = drop (length src) (r @ [f])"
  define rest where "rest = map (drop (length src)) (map (\<lambda>f. r @ [f]) fl)"
  have rel: "relative_to (r @ [f]) src = Inr rel"
    unfolding rel_def using Cons.prems by (rule relative_to_below)
  have l: "map (drop (length src)) (map (\<lambda>f. r @ [f]) (f # fl)) = rel # rest"
    by (simp add: rel_def rest_def)
  have ih: "discover_files src dst r fl acc' fs' = discover_rels dst rest acc' fs'" for acc' fs'
    unfolding rest_def using Cons.prems by (rule Cons.IH)
  show ?case
    unfolding l by (simp add: rel ih Let_def split: sum.splits)
qed

lemma discover_rels_eq:
  "\<forall>(r, fl) \<in> set w. prefix src r \<Longrightarrow>
   discover src dst w acc fs = discover_rels dst (map (drop (length src)) (walk_files w)) acc fs"
proof (induction w arbitrary: acc fs)
  case Nil
  then show ?case by (simp add: walk_files_Nil)
next
  case (Cons x w)
  obtain r fl where x: "x = (r, fl)" by (cases x)
  with Cons.prems have pr: "prefix src r" and rest: "\<forall>(r, fl) \<in> set w. prefix src r" by auto
  from Cons.IH [OF rest] discover_files_rels [OF pr] x show ?case
    by (simp add: walk_files_Cons discover_rels_append split: prod.splits sum.splits)
qed

lemma copy_files_rels:
  "prefix src r \<Longrightarrow>
   copy_files src dst r fl counts fs
     = copy_rels src dst (map (drop (length src)) (map (\<lambda>f. r @ [f]) fl)) counts fs"
proof (induction fl arbitrary: counts fs)
  case Nil
  then show ?case by simp
next
  case (Cons f fl)
  obtain c ov where counts: "counts = (c, ov)" by (cases counts)
  define rel where "rel = drop (length src) (r @ [f])"
  define rest where "rest = map (drop (length src)) (map (\<lambda>f. r @ [f]) fl)"
  have rel: "relative_to (r @ [f]) src = Inr rel"
    unfolding rel_def using Cons.prems by (rule relative_to_below)
  have s: "src @ rel = r @ [f]"
    unfolding rel_def using Cons.prems by (auto simp: prefix_def)
  have l: "map (drop (length src)) (map (\<lambda>f. r @ [f]) (f # fl)) = rel # rest"
    by (simp add: rel_def rest_def)
  have ih: "copy_files src dst r fl counts' fs' = copy_rels src dst rest counts' fs'" for counts' fs'
    unfolding rest_def using Cons.prems by (rule Cons.IH)
  show ?case
    unfolding l counts by (simp add: rel s ih Let_def split: sum.splits)
qed

lemma copy_rels_eq:
  "\<forall>(r, fl) \<in> set w. prefix src r \<Longrightarrow>
   copy_walk src dst w counts fs = copy_rels src dst (map (drop (length src)) (walk_files w)) counts fs"
proof (induction w arbitrary: counts fs)
  case Nil
  then show ?case by (simp add: walk_files_Nil)
next
  case (Cons x w)
  obtain r fl where x: "x = (r, fl)" by (cases x)
  with Cons.prems have pr: "prefix src r" and rest: "\<forall>(r, fl) \<in> set w. prefix src r" by auto
  from Cons.IH [OF rest] copy_files_rels [OF pr] x show ?case
    by (simp add: walk_files_Cons copy_rels_append split: prod.splits sum.splits)
qed

lemma os_walk_all_prefix: "\<forall>(r, fl) \<in> set (os_walk fs src). prefix src r"
  by (auto dest: os_walk_prefix)

lemma discover_source_rels:
  "discover src dst (os_walk fs src) acc fs0 = discover_rels dst (source_rels fs src) acc fs0"
  by (simp add: discover_rels_eq [OF os_walk_all_prefix] source_rels_def source_files_def)

lemma copy_source_rels:
  "copy_walk src dst (os_walk fs src) counts fs0 = copy_rels src dst (source_rels fs src) counts fs0"
  by (simp add: copy_rels_eq [OF os_walk_all_prefix] source_rels_def source_files_def)

section \<open>The three passes\<close>

lemma parent_append: "rel \<noteq> [] \<Longrightarrow> parent (d @ rel) = d @ butlast rel"
  by (simp add: parent_def butlast_append)

lemma prefix_butlast: "prefix a (butlast b) \<Longrightarrow> b \<noteq> [] \<Longrightarrow> strict_prefix a b"
proof -
  assume a: "prefix a (butlast b)" and b: "b \<noteq> []"
  from a obtain z where z: "butlast b = a @ z" by (auto simp: prefix_def)
  from b have "b = butlast b @ [last b]" by simp
  with z have e: "b = a @ (z @ [last b])" by simp
  have "a @ (z @ [last b]) \<noteq> a" by simp
  with e have "a \<noteq> b" by metis
  moreover from e have "prefix a b" by (metis prefixI)
  ultimately show ?thesis by (simp add: strict_prefix_def)
qed

lemma not_below_parent:
  assumes "\<forall>a\<in>set rs. \<forall>b\<in>set rs. \<not> strict_prefix a b" and "[] \<notin> set rs"
    and "a \<in> set rs" and "b \<in> set rs"
  shows "\<not> prefix (d @ a) (d @ butlast b)"
proof
  assume "prefix (d @ a) (d @ butlast b)"
  then have p: "prefix a (butlast b)" by simp
  from assms(2,4) have "b \<noteq> []" by auto
  with p have "strict_prefix a b" by (rule prefix_butlast)
  with assms(1,3,4) show False by blast
qed

lemma discover_rels_file_at:
  "discover_rels dst rs acc fs = (res, fs1) \<Longrightarrow> file_at fs1 q = file_at fs q"
proof (induction rs arbitrary: acc fs)
  case Nil
  then show ?case by simp
next
  case (Cons rel rs)
  show ?case
  proof (cases "mkdir fs (parent (dst @ rel))")
    case (Inl e)
    with Cons.prems show ?thesis by simp
  next
    case m: (Inr fs0)
    with Cons.prems obtain acc0 where "discover_rels dst rs acc0 fs0 = (res, fs1)" by simp
    from Cons.IH [OF this] mkdir_file_at [OF m] show ?thesis by simp
  qed
qed

lemma discover_rels_source_files:
  "discover_rels dst rs acc fs = (res, fs1) \<Longrightarrow> source_files fs1 s = source_files fs s"
proof (induction rs arbitrary: acc fs)
  case Nil
  then show ?case by simp
next
  case (Cons rel rs)
  show ?case
  proof (cases "mkdir fs (parent (dst @ rel))")
    case (Inl e)
    with Cons.prems show ?thesis by simp
  next
    case m: (Inr fs0)
    with Cons.prems obtain acc0 where "discover_rels dst rs acc0 fs0 = (res, fs1)" by simp
    from Cons.IH [OF this] mkdir_source_files [OF m] show ?thesis by simp
  qed
qed

lemma discover_rels_is_dir:
  "discover_rels dst rs acc fs = (Inr ftr, fs1) \<Longrightarrow> [] \<notin> set rs \<Longrightarrow>
   is_dir fs1 q = (is_dir fs q \<or> (\<exists>rel\<in>set rs. prefix q (dst @ butlast rel)))"
proof (induction rs arbitrary: acc fs)
  case Nil
  then show ?case by simp
next
  case (Cons rel rs)
  from Cons.prems(2) have ne: "rel \<noteq> []" and rest: "[] \<notin> set rs" by auto
  show ?case
  proof (cases "mkdir fs (parent (dst @ rel))")
    case (Inl e)
    with Cons.prems show ?thesis by simp
  next
    case m: (Inr fs0)
    with Cons.prems obtain acc0 where "discover_rels dst rs acc0 fs0 = (Inr ftr, fs1)" by simp
    from Cons.IH [OF this rest] mkdir_is_dir_iff [OF m] parent_append [OF ne, of dst]
    show ?thesis by auto
  qed
qed

lemma discover_rels_found:
  assumes "discover_rels dst rs acc fs = (Inr ftr, fs1)"
    and "\<forall>a\<in>set rs. \<forall>b\<in>set rs. \<not> strict_prefix a b" and "[] \<notin> set rs"
  shows "ftr = acc @ map ((@) dst) (filter (\<lambda>rel. exists_path fs (dst @ rel)) rs)"
  using assms
proof (induction rs arbitrary: acc fs)
  case Nil
  then show ?case by simp
next
  case (Cons rel rs)
  from Cons.prems(3) have ne: "rel \<noteq> []" and rest: "[] \<notin> set rs" by auto
  from Cons.prems(2) have pf: "\<forall>a\<in>set rs. \<forall>b\<in>set rs. \<not> strict_prefix a b" by auto
  show ?case
  proof (cases "mkdir fs (parent (dst @ rel))")
    case (Inl e)
    with Cons.prems show ?thesis by simp
  next
    case m: (Inr fs0)
    have ex: "exists_path fs0 (dst @ a) = exists_path fs (dst @ a)" if "a \<in> set (rel # rs)" for a
    proof -
      from not_below_parent [OF Cons.prems(2,3) that, of rel dst]
      have "\<not> prefix (dst @ a) (dst @ butlast rel)" by simp
      with mkdir_exists [OF m] parent_append [OF ne, of dst] show ?thesis by simp
    qed
    from m Cons.prems(1) have
      d: "discover_rels dst rs (if exists_path fs0 (dst @ rel) then acc @ [dst @ rel] else acc) fs0
            = (Inr ftr, fs1)"
      by simp
    have f: "filter (\<lambda>rel. exists_path fs0 (dst @ rel)) rs = filter (\<lambda>rel. exists_path fs (dst @ rel)) rs"
      by (rule filter_cong) (simp_all add: ex)
    from Cons.IH [OF d pf rest] f ex [of rel] show ?thesis by simp
  qed
qed

lemma relative_to_append: "relative_to (d @ rel) d = Inr rel"
  by (simp add: relative_to_def)

lemma file_not_dir: "file_at t q \<noteq> None \<Longrightarrow> \<not> is_dir t q"
  by (auto simp: file_at_def is_dir_def split: option.splits node.splits)

text \<open>The backup pass: general facts.\<close>

lemma backup_rels_sources:
  assumes "backup_original_files dst (map ((@) dst) rs) B fs = (Inr u, fs')"
    and "\<forall>q. prefix B q \<longrightarrow> \<not> prefix dst q"
  shows "\<forall>rel\<in>set rs. file_at fs (dst @ rel) \<noteq> None"
  using assms
proof (induction rs arbitrary: fs)
  case Nil
  then show ?case by simp
next
  case (Cons rel rs)
  from Cons.prems(1) obtain fs1 fs2 where m: "mkdir fs (parent (B @ rel)) = Inr fs1"
    and c: "copy2 fs1 (dst @ rel) (B @ rel) = Inr fs2"
    and r: "backup_original_files dst (map ((@) dst) rs) B fs2 = (Inr u, fs')"
    by (auto simp: relative_to_append Let_def split: sum.splits)
  have out: "\<not> prefix (B @ rel) (dst @ x)" for x
    using Cons.prems(2) by (meson append_prefixD prefixI)
  have keep: "file_at fs2 (dst @ x) = file_at fs (dst @ x)" for x
    using copy2_file_at [OF c out] mkdir_file_at [OF m] by simp
  from copy2_source [OF c] mkdir_file_at [OF m] have "file_at fs (dst @ rel) \<noteq> None" by simp
  moreover from Cons.IH [OF r Cons.prems(2)] keep have "\<forall>rel\<in>set rs. file_at fs (dst @ rel) \<noteq> None"
    by simp
  ultimately show ?case by simp
qed

lemma backup_rels_is_dir:
  assumes "backup_original_files dst (map ((@) dst) rs) B fs = (Inr u, fs')" and "[] \<notin> set rs"
  shows "is_dir fs' q = (is_dir fs q \<or> (\<exists>rel\<in>set rs. prefix q (B @ butlast rel)))"
  using assms
proof (induction rs arbitrary: fs)
  case Nil
  then show ?case by simp
next
  case (Cons rel rs)
  from Cons.prems(2) have ne: "rel \<noteq> []" and rest: "[] \<notin> set rs" by auto
  from Cons.prems(1) obtain fs1 fs2 where m: "mkdir fs (parent (B @ rel)) = Inr fs1"
    and c: "copy2 fs1 (dst @ rel) (B @ rel) = Inr fs2"
    and r: "backup_original_files dst (map ((@) dst) rs) B fs2 = (Inr u, fs')"
    by (auto simp: relative_to_append Let_def split: sum.splits)
  from Cons.IH [OF r rest] copy2_is_dir [OF c] mkdir_is_dir_iff [OF m] parent_append [OF ne, of B]
  show ?case by auto
qed

lemma backup_rels_source_files:
  assumes "backup_original_files dst (map ((@) dst) rs) B fs = (res, fs')"
    and "\<not> prefix s B" and "\<not> prefix B s"
  shows "source_files fs' s = source_files fs s"
  using assms
proof (induction rs arbitrary: fs)
  case Nil
  then show ?case by simp
next
  case (Cons rel rs)
  show ?case
  proof (cases "mkdir fs (parent (B @ rel))")
    case (Inl e)
    with Cons.prems(1) show ?thesis by (simp add: relative_to_append Let_def)
  next
    case m: (Inr fs1)
    have s1: "source_files fs1 s = source_files fs s" using m by (rule mkdir_source_files)
    show ?thesis
    proof (cases "copy2 fs1 (dst @ rel) (B @ rel)")
      case (Inl e)
      with m s1 Cons.prems(1) show ?thesis by (simp add: relative_to_append Let_def)
    next
      case c: (Inr fs2)
      from Cons.prems(2,3) have a: "\<not> prefix s (B @ rel)" and b: "\<not> prefix (B @ rel) s"
        by (auto simp: prefix_append dest: append_prefixD)
      from copy2_lookup [OF c a b] have "source_files fs2 s = source_files fs1 s"
        by (simp add: source_files_def os_walk_def)
      moreover from m c Cons.prems(1) have "backup_original_files dst (map ((@) dst) rs) B fs2 = (res, fs')"
        by (simp add: relative_to_append Let_def)
      from Cons.IH [OF this Cons.prems(2,3)] have "source_files fs' s = source_files fs2 s" .
      ultimately show ?thesis using s1 by simp
    qed
  qed
qed

text \<open>The backup pass into a backup directory without directories at the backup paths.\<close>

lemma backup_rels_written:
  assumes "backup_original_files dst (map ((@) dst) rs) B fs = (Inr u, fs')"
    and "\<forall>a\<in>set rs. \<forall>b\<in>set rs. \<not> strict_prefix a b" and "[] \<notin> set rs"
    and "\<forall>q. prefix B q \<longrightarrow> \<not> prefix dst q"
    and "\<forall>rel\<in>set rs. \<not> is_dir fs (B @ rel)"
  shows "(\<forall>rel\<in>set rs. file_at fs' (B @ rel) = file_at fs (dst @ rel))
       \<and> (\<forall>q. (\<forall>rel\<in>set rs. q \<noteq> B @ rel) \<longrightarrow> file_at fs' q = file_at fs q)"
  using assms
proof (induction rs arbitrary: fs)
  case Nil
  then show ?case by simp
next
  case (Cons rel rs)
  from Cons.prems(3) have ne: "rel \<noteq> []" and rest: "[] \<notin> set rs" by auto
  from Cons.prems(2) have pf: "\<forall>a\<in>set rs. \<forall>b\<in>set rs. \<not> strict_prefix a b" by auto
  from Cons.prems(1) obtain fs1 fs2 where m: "mkdir fs (parent (B @ rel)) = Inr fs1"
    and c: "copy2 fs1 (dst @ rel) (B @ rel) = Inr fs2"
    and r: "backup_original_files dst (map ((@) dst) rs) B fs2 = (Inr u, fs')"
    by (auto simp: relative_to_append Let_def split: sum.splits)
  have nb: "\<not> prefix (B @ a) (B @ butlast rel)" if "a \<in> set (rel # rs)" for a
    using not_below_parent [OF Cons.prems(2,3) that, of rel B] by simp
  have d1: "is_dir fs1 (B @ a) = is_dir fs (B @ a)" if "a \<in> set (rel # rs)" for a
    using mkdir_is_dir_iff [OF m] parent_append [OF ne, of B] nb [OF that] by simp
  from d1 [of rel] Cons.prems(5) have nd: "\<not> is_dir fs1 (B @ rel)" by simp
  note cp = copy2_plain [OF c nd]
  have f1: "file_at fs1 q = file_at fs q" for q using m by (rule mkdir_file_at)
  have w: "file_at fs2 (B @ rel) = file_at fs (dst @ rel)" using cp f1 by simp
  have o: "q \<noteq> B @ rel \<Longrightarrow> file_at fs2 q = file_at fs q" for q using cp f1 by simp
  have diff: "dst @ x \<noteq> B @ y" for x y
    using Cons.prems(4) by (metis prefixI)
  have nd2: "\<forall>a\<in>set rs. \<not> is_dir fs2 (B @ a)"
    using cp d1 Cons.prems(5) by simp
  from Cons.IH [OF r pf rest Cons.prems(4) nd2]
  have ih1: "\<forall>a\<in>set rs. file_at fs' (B @ a) = file_at fs2 (dst @ a)"
    and ih2: "\<forall>q. (\<forall>a\<in>set rs. q \<noteq> B @ a) \<longrightarrow> file_at fs' q = file_at fs2 q"
    by simp_all
  have a1: "file_at fs' (B @ a) = file_at fs (dst @ a)" if "a \<in> set rs" for a
    using ih1 that o [of "dst @ a"] diff by simp
  have a0: "file_at fs' (B @ rel) = file_at fs (dst @ rel)"
  proof (cases "rel \<in> set rs")
    case True
    then show ?thesis by (rule a1)
  next
    case False
    then have "\<forall>a\<in>set rs. B @ rel \<noteq> B @ a" by auto
    with ih2 w show ?thesis by simp
  qed
  have a2: "file_at fs' q = file_at fs q" if "\<forall>a\<in>set (rel # rs). q \<noteq> B @ a" for q
    using ih2 that o [of q] by simp
  from a0 a1 a2 show ?case by simp
qed

text \<open>The copy pass.\<close>

lemma copy_rels_result:
  assumes "copy_rels src dst rs (c0, o0) fs = (Inr (c, ov), fs')"
    and "\<forall>a\<in>set rs. \<forall>b\<in>set rs. \<not> strict_prefix a b" and "[] \<notin> set rs" and "distinct rs"
    and "\<forall>rel\<in>set rs. \<not> is_dir fs (dst @ rel)"
    and "\<forall>x y. src @ x \<noteq> dst @ y"
  shows "c = c0 + length rs
       \<and> ov = o0 + length (filter (\<lambda>rel. file_at fs (dst @ rel) \<noteq> None) rs)
       \<and> (\<forall>rel\<in>set rs. file_at fs (src @ rel) \<noteq> None \<and> file_at fs' (dst @ rel) = file_at fs (src @ rel))
       \<and> (\<forall>q. (\<forall>rel\<in>set rs. q \<noteq> dst @ rel) \<longrightarrow> file_at fs' q = file_at fs q)"
  using assms
proof (induction rs arbitrary: fs c0 o0)
  case Nil
  then show ?case by simp
next
  case (Cons rel rs)
  from Cons.prems(3) have ne: "rel \<noteq> []" and rest: "[] \<notin> set rs" by auto
  from Cons.prems(2) have pf: "\<forall>a\<in>set rs. \<forall>b\<in>set rs. \<not> strict_prefix a b" by auto
  from Cons.prems(4) have nin: "rel \<notin> set rs" and dis: "distinct rs" by auto
  from Cons.prems(1) obtain fs1 fs2 where m: "mkdir fs (parent (dst @ rel)) = Inr fs1"
    and cc: "copy2 fs1 (src @ rel) (dst @ rel) = Inr fs2"
    and r: "copy_rels src dst rs (c0 + 1, if exists_path fs1 (dst @ rel) then o0 + 1 else o0) fs2
              = (Inr (c, ov), fs')"
    by (auto split: sum.splits)
  have nb: "\<not> prefix (dst @ a) (dst @ butlast rel)" if "a \<in> set (rel # rs)" for a
    using not_below_parent [OF Cons.prems(2,3) that, of rel dst] by simp
  have d1: "is_dir fs1 (dst @ a) = is_dir fs (dst @ a)" if "a \<in> set (rel # rs)" for a
    using mkdir_is_dir_iff [OF m] parent_append [OF ne, of dst] nb [OF that] by simp
  from d1 [of rel] Cons.prems(5) have nd: "\<not> is_dir fs1 (dst @ rel)" by simp
  note cp = copy2_plain [OF cc nd]
  have f1: "file_at fs1 q = file_at fs q" for q using m by (rule mkdir_file_at)
  have ex: "exists_path fs1 (dst @ rel) = (file_at fs (dst @ rel) \<noteq> None)"
    using nd f1 by (simp add: exists_path_iff)
  have s0: "file_at fs (src @ rel) \<noteq> None" using cp f1 by simp
  have w: "file_at fs2 (dst @ rel) = file_at fs (src @ rel)" using cp f1 by simp
  have o: "q \<noteq> dst @ rel \<Longrightarrow> file_at fs2 q = file_at fs q" for q using cp f1 by simp
  have nd2: "\<forall>a\<in>set rs. \<not> is_dir fs2 (dst @ a)"
    using cp d1 Cons.prems(5) by simp
  from Cons.IH [OF r pf rest dis nd2 Cons.prems(6)]
  have ih_c: "c = c0 + 1 + length rs"
    and ih_o: "ov = (if exists_path fs1 (dst @ rel) then o0 + 1 else o0)
                 + length (filter (\<lambda>a. file_at fs2 (dst @ a) \<noteq> None) rs)"
    and ih1: "\<forall>a\<in>set rs. file_at fs2 (src @ a) \<noteq> None \<and> file_at fs' (dst @ a) = file_at fs2 (src @ a)"
    and ih2: "\<forall>q. (\<forall>a\<in>set rs. q \<noteq> dst @ a) \<longrightarrow> file_at fs' q = file_at fs2 q"
    by simp_all
  have src_same: "file_at fs2 (src @ a) = file_at fs (src @ a)" for a
    using o [of "src @ a"] Cons.prems(6) by simp
  have f: "filter (\<lambda>a. file_at fs2 (dst @ a) \<noteq> None) rs = filter (\<lambda>a. file_at fs (dst @ a) \<noteq> None) rs"
  proof (rule filter_cong)
    fix a assume "a \<in> set rs"
    with nin have "dst @ a \<noteq> dst @ rel" by auto
    with o show "(file_at fs2 (dst @ a) \<noteq> None) = (file_at fs (dst @ a) \<noteq> None)" by simp
  qed simp
  have r1: "c = c0 + length (rel # rs)" using ih_c by simp
  have r2: "ov = o0 + length (filter (\<lambda>a. file_at fs (dst @ a) \<noteq> None) (rel # rs))"
    using ih_o f ex by simp
  have r3: "file_at fs (src @ a) \<noteq> None \<and> file_at fs' (dst @ a) = file_at fs (src @ a)"
    if "a \<in> set (rel # rs)" for a
  proof (cases "a \<in> set rs")
    case True
    with ih1 src_same show ?thesis by simp
  next
    case False
    with that have a: "a = rel" by simp
    from nin have "\<forall>b\<in>set rs. dst @ rel \<noteq> dst @ b" by auto
    with ih2 have "file_at fs' (dst @ rel) = file_at fs2 (dst @ rel)" by simp
    with a w s0 show ?thesis by simp
  qed
  have r4: "file_at fs' q = file_at fs q" if "\<forall>a\<in>set (rel # rs). q \<noteq> dst @ a" for q
    using ih2 that o [of q] by simp
  from r1 r2 r3 r4 show ?case by blast
qed

section \<open>The source files\<close>

lemma source_files_below:
  "p \<in> set (source_files fs src) \<Longrightarrow> prefix src p \<and> p = src @ drop (length src) p \<and> drop (length src) p \<noteq> []"
proof -
  assume "p \<in> set (source_files fs src)"
  then obtain r fl f where w: "(r, fl) \<in> set (os_walk fs src)" and p: "p = r @ [f]"
    by (auto simp: source_files_def walk_files_def)
  from os_walk_prefix [OF w] obtain z where "r = src @ z" by (auto simp: prefix_def)
  with p show ?thesis by simp
qed

lemma source_rels_files: "map ((@) src) (source_rels fs src) = source_files fs src"
  unfolding source_rels_def using source_files_below [of _ fs src]
  by (simp add: map_idI)

lemma source_rels_set: "(rel \<in> set (source_rels fs src)) = (src @ rel \<in> set (source_files fs src))"
proof -
  have "(src @ rel \<in> set (map ((@) src) (source_rels fs src))) = (rel \<in> set (source_rels fs src))"
    by auto
  then show ?thesis by (simp add: source_rels_files)
qed

lemma source_rels_nonempty: "[] \<notin> set (source_rels fs src)"
  using source_files_below [of _ fs src] by (auto simp: source_rels_def)

lemma source_rels_distinct: "source_ok fs src \<Longrightarrow> distinct (source_rels fs src)"
proof -
  assume "source_ok fs src"
  then have "distinct (map ((@) src) (source_rels fs src))"
    by (simp add: source_ok_def source_rels_files)
  then show ?thesis by (simp add: distinct_map)
qed

lemma source_rels_file: "source_ok fs src \<Longrightarrow> rel \<in> set (source_rels fs src) \<Longrightarrow> file_at fs (src @ rel) \<noteq> None"
  by (auto simp: source_ok_def source_rels_set list_all_iff split: option.splits)

lemma source_rels_prefix_free:
  assumes "source_ok fs src"
  shows "\<forall>a\<in>set (source_rels fs src). \<forall>b\<in>set (source_rels fs src). \<not> strict_prefix a b"
proof (intro ballI notI)
  fix a b
  assume a: "a \<in> set (source_rels fs src)" and b: "b \<in> set (source_rels fs src)"
    and s: "strict_prefix a b"
  from s have "strict_prefix (src @ a) (src @ b)" by (auto simp: strict_prefix_def)
  with source_rels_file [OF assms a] have "lookup fs (src @ b) = None" by (rule file_below_file)
  then have "file_at fs (src @ b) = None" by (simp add: file_at_def)
  with source_rels_file [OF assms b] show False by simp
qed

lemma apart: "\<not> prefix a b \<Longrightarrow> \<not> prefix b a \<Longrightarrow> a @ x \<noteq> b @ y"
  by (metis append_eq_append_conv2 prefixI)

lemma not_below: "\<not> prefix a b \<Longrightarrow> \<not> prefix b a \<Longrightarrow> \<not> prefix a (b @ y)"
  by (auto simp: prefix_append)

lemma exists_prefix: "exists_path t (b @ y) \<Longrightarrow> exists_path t b"
proof (induction b arbitrary: t)
  case Nil
  then show ?case by (simp add: exists_path_def)
next
  case (Cons n b)
  from Cons.prems obtain es u where t: "t = Dir es" and u: "map_of es n = Some u"
    and e: "exists_path u (b @ y)"
    by (cases t) (auto simp: exists_path_def split: option.splits)
  from Cons.IH [OF e] t u show ?case by (simp add: exists_path_def)
qed

section \<open>From the first loop to the result\<close>

lemma copy_tree_over_in_stages:
  assumes "copy_tree_over_in names now src dst fs = (Inr (copied, overwritten, backup_root), fs')"
  obtains ftr fs1 fs2 u fs3 where
    "discover_rels dst (source_rels fs src) [] fs = (Inr ftr, fs1)"
    "mkdir fs1 (backup_dir dst now) = Inr fs2"
    "backup_original_files dst ftr (backup_dir dst now) fs2 = (Inr u, fs3)"
    "copy_rels src dst (source_rels fs3 src) (0, 0) fs3 = (Inr (copied, overwritten), fs')"
    "backup_root = backup_dir dst now"
proof -
  obtain r3 fs3 where p: "plan_and_backup names now src dst fs = (r3, fs3)"
    by (cases "plan_and_backup names now src dst fs")
  with assms obtain b where r3: "r3 = Inr b" by (cases r3) (auto simp: copy_tree_over_in_def)
  from assms p r3 have cw: "copy_walk src dst (os_walk fs3 src) (0, 0) fs3 = (Inr (copied, overwritten), fs')"
    and b: "b = backup_root"
    by (auto simp: copy_tree_over_in_def split: prod.splits sum.splits)
  obtain ftr fs1 where d: "discover src dst (os_walk fs src) [] fs = (Inr ftr, fs1)"
    using p r3 by (auto simp: plan_and_backup_def split: prod.splits sum.splits)
  from p r3 d have ts: "timestamp names now = Inr now"
    by (auto simp: plan_and_backup_def timestamp_def split: prod.splits sum.splits if_splits)
  from p r3 d ts obtain fs2 where m: "mkdir fs1 (backup_dir dst now) = Inr fs2"
    by (auto simp: plan_and_backup_def Let_def split: prod.splits sum.splits if_splits)
  from p r3 d ts m have beq: "b = backup_dir dst now"
    by (auto simp: plan_and_backup_def Let_def split: prod.splits sum.splits if_splits)
  have "\<exists>u. backup_original_files dst ftr (backup_dir dst now) fs2 = (Inr u, fs3)"
  proof (cases "ftr = []")
    case True
    with p r3 d ts m show ?thesis by (auto simp: plan_and_backup_def Let_def)
  next
    case False
    with p r3 d ts m show ?thesis
      by (auto simp: plan_and_backup_def Let_def split: prod.splits sum.splits)
  qed
  then obtain u where bk: "backup_original_files dst ftr (backup_dir dst now) fs2 = (Inr u, fs3)" ..
  from d have d': "discover_rels dst (source_rels fs src) [] fs = (Inr ftr, fs1)"
    by (simp add: discover_source_rels)
  from cw have cw': "copy_rels src dst (source_rels fs3 src) (0, 0) fs3 = (Inr (copied, overwritten), fs')"
    by (simp add: copy_source_rels)
  from d' m bk cw' b beq show ?thesis by (auto intro: that)
qed

lemma copy_rels_source_files:
  assumes "copy_rels src dst rs counts fs = (res, fs')"
    and "\<not> prefix src dst" and "\<not> prefix dst src"
  shows "source_files fs' src = source_files fs src"
  using assms(1)
proof (induction rs arbitrary: counts fs)
  case Nil
  then show ?case by simp
next
  case (Cons rel rs)
  obtain c ov where counts: "counts = (c, ov)" by (cases counts)
  show ?case
  proof (cases "mkdir fs (parent (dst @ rel))")
    case (Inl e)
    with Cons.prems counts show ?thesis by simp
  next
    case m: (Inr fs1)
    have s1: "source_files fs1 src = source_files fs src" using m by (rule mkdir_source_files)
    show ?thesis
    proof (cases "copy2 fs1 (src @ rel) (dst @ rel)")
      case (Inl e)
      with m s1 Cons.prems counts show ?thesis by simp
    next
      case c: (Inr fs2)
      from assms(2,3) have a: "\<not> prefix src (dst @ rel)" and b: "\<not> prefix (dst @ rel) src"
        by (auto simp: prefix_append dest: append_prefixD)
      from copy2_lookup [OF c a b] have "source_files fs2 src = source_files fs1 src"
        by (simp add: source_files_def os_walk_def)
      moreover from m c Cons.prems counts obtain counts1 where
        "copy_rels src dst rs counts1 fs2 = (res, fs')" by simp
      from Cons.IH [OF this] have "source_files fs' src = source_files fs2 src" .
      ultimately show ?thesis using s1 by simp
    qed
  qed
qed

lemma patch_body:
  assumes ret: "copy_tree_over_in names now src dst fs = (Inr (copied, overwritten, backup_root), fs')"
    and ok: "source_ok fs src"
    and sd: "\<not> prefix src dst" "\<not> prefix dst src"
    and db: "dst \<noteq> []" "last dst \<noteq> ''backups''"
    and sb: "\<not> prefix src (backup_dir dst now)" "\<not> prefix (backup_dir dst now) src"
  shows "copied = length (source_rels fs src)"
    and "overwritten = length (filter (\<lambda>rel. file_at fs (dst @ rel) \<noteq> None) (source_rels fs src))"
    and "\<forall>rel\<in>set (source_rels fs src). file_at fs' (dst @ rel) = file_at fs (src @ rel)"
    and "\<forall>rel. rel \<notin> set (source_rels fs src) \<longrightarrow> file_at fs' (dst @ rel) = file_at fs (dst @ rel)"
    and "\<not> exists_path fs (backup_dir dst now) \<longrightarrow>
         (\<forall>rel. file_at fs' (backup_root @ rel)
                  = (if rel \<in> set (source_rels fs src) then file_at fs (dst @ rel) else None))"
    and "source_files fs' src = source_files fs src"
    and "\<forall>rel. file_at fs' (src @ rel) = file_at fs (src @ rel)"
proof -
  define B where "B = backup_dir dst now"
  define rs where "rs = source_rels fs src"
  define rs' where "rs' = filter (\<lambda>rel. exists_path fs (dst @ rel)) rs"
  from ret obtain ftr fs1 fs2 u fs3 where
    d: "discover_rels dst rs [] fs = (Inr ftr, fs1)"
    and m: "mkdir fs1 B = Inr fs2"
    and bk: "backup_original_files dst ftr B fs2 = (Inr u, fs3)"
    and cp: "copy_rels src dst (source_rels fs3 src) (0, 0) fs3 = (Inr (copied, overwritten), fs')"
    and br: "backup_root = B"
    unfolding B_def rs_def by (rule copy_tree_over_in_stages)
  have pf: "\<forall>a\<in>set rs. \<forall>b\<in>set rs. \<not> strict_prefix a b"
    unfolding rs_def using ok by (rule source_rels_prefix_free)
  have ne: "[] \<notin> set rs" unfolding rs_def by (rule source_rels_nonempty)
  have dis: "distinct rs" unfolding rs_def using ok by (rule source_rels_distinct)
  have sub: "set rs' \<subseteq> set rs" by (auto simp: rs'_def)
  have pf': "\<forall>a\<in>set rs'. \<forall>b\<in>set rs'. \<not> strict_prefix a b" using pf sub by blast
  have ne': "[] \<notin> set rs'" using ne sub by blast
  have out: "\<forall>q. prefix B q \<longrightarrow> \<not> prefix dst q"
    unfolding B_def using backup_dir_outside [OF db] by blast
  have ftr: "ftr = map ((@) dst) rs'"
    using discover_rels_found [OF d pf ne] by (simp add: rs'_def)
  note bk' = bk [unfolded ftr]
  have f1: "file_at fs1 q = file_at fs q" for q using d by (rule discover_rels_file_at)
  have f2: "file_at fs2 q = file_at fs1 q" for q using m by (rule mkdir_file_at)
  have f3: "\<not> prefix B q \<Longrightarrow> file_at fs3 q = file_at fs2 q" for q
    using bk by (rule backup_original_files_file_at)
  have nbd: "\<not> prefix B (dst @ x)" for x using out by auto
  have f3d: "file_at fs3 (dst @ x) = file_at fs (dst @ x)" for x
    using f3 [OF nbd] f1 f2 by simp
  have nbs: "\<not> prefix B (src @ x)" for x
    using sb not_below [of B src x] by (simp add: B_def)
  have f3s: "file_at fs3 (src @ x) = file_at fs (src @ x)" for x
    using f3 [OF nbs] f1 f2 by simp
  have s1: "source_files fs1 src = source_files fs src" using d by (rule discover_rels_source_files)
  have s2: "source_files fs2 src = source_files fs1 src" using m by (rule mkdir_source_files)
  have s3: "source_files fs3 src = source_files fs2 src"
    using bk' sb by (simp add: backup_rels_source_files B_def)
  have rs3: "source_rels fs3 src = rs" by (simp add: source_rels_def rs_def s1 s2 s3)
  note cp' = cp [unfolded rs3]
  have d1: "is_dir fs1 q = (is_dir fs q \<or> (\<exists>rel\<in>set rs. prefix q (dst @ butlast rel)))" for q
    using d ne by (rule discover_rels_is_dir)
  have d2: "is_dir fs2 q = (is_dir fs1 q \<or> prefix q B)" for q
    using m by (rule mkdir_is_dir_iff)
  have d3: "is_dir fs3 q = (is_dir fs2 q \<or> (\<exists>rel\<in>set rs'. prefix q (B @ butlast rel)))" for q
    using bk' ne' by (rule backup_rels_is_dir)
  have files: "\<forall>rel\<in>set rs'. file_at fs (dst @ rel) \<noteq> None"
    using backup_rels_sources [OF bk' out] f1 f2 by simp
  have nodir0: "\<not> is_dir fs (dst @ rel)" if "rel \<in> set rs" for rel
  proof (cases "exists_path fs (dst @ rel)")
    case True
    with that have "rel \<in> set rs'" by (simp add: rs'_def)
    with files have "file_at fs (dst @ rel) \<noteq> None" by blast
    then show ?thesis by (rule file_not_dir)
  next
    case False
    then show ?thesis by (simp add: exists_path_iff)
  qed
  have notB: "\<not> prefix (dst @ x) (B @ y)" for x y
    using out by (meson append_prefixD prefixI)
  have notB0: "\<not> prefix (dst @ x) B" for x
    using notB [of x "[]"] by simp
  have nodir3: "\<forall>rel\<in>set rs. \<not> is_dir fs3 (dst @ rel)"
  proof
    fix rel assume r: "rel \<in> set rs"
    have "\<not> (\<exists>a\<in>set rs. prefix (dst @ rel) (dst @ butlast a))"
      using not_below_parent [OF pf ne r] by blast
    with nodir0 [OF r] notB notB0 show "\<not> is_dir fs3 (dst @ rel)"
      by (simp add: d1 d2 d3)
  qed
  have ap: "\<forall>x y. src @ x \<noteq> dst @ y" using apart [OF sd] by blast
  note res = copy_rels_result [OF cp' pf ne dis nodir3 ap]
  from res show "copied = length (source_rels fs src)" by (simp add: rs_def)
  from res have "overwritten = length (filter (\<lambda>rel. file_at fs3 (dst @ rel) \<noteq> None) rs)" by simp
  then show "overwritten = length (filter (\<lambda>rel. file_at fs (dst @ rel) \<noteq> None) (source_rels fs src))"
    by (simp add: f3d rs_def)
  from res have c1: "\<forall>rel\<in>set rs. file_at fs' (dst @ rel) = file_at fs3 (src @ rel)" by simp
  then show "\<forall>rel\<in>set (source_rels fs src). file_at fs' (dst @ rel) = file_at fs (src @ rel)"
    by (simp add: f3s rs_def)
  from res have fr: "\<forall>q. (\<forall>rel\<in>set rs. q \<noteq> dst @ rel) \<longrightarrow> file_at fs' q = file_at fs3 q" by simp
  show "\<forall>rel. rel \<notin> set (source_rels fs src) \<longrightarrow> file_at fs' (dst @ rel) = file_at fs (dst @ rel)"
  proof (intro allI impI)
    fix rel assume "rel \<notin> set (source_rels fs src)"
    then have "\<forall>a\<in>set rs. dst @ rel \<noteq> dst @ a" by (auto simp: rs_def)
    with fr f3d show "file_at fs' (dst @ rel) = file_at fs (dst @ rel)" by simp
  qed
  have frB: "file_at fs' (B @ y) = file_at fs3 (B @ y)" for y
  proof -
    have "\<forall>a\<in>set rs. B @ y \<noteq> dst @ a" using notB by (metis prefix_order.order_refl)
    with fr show ?thesis by simp
  qed
  show "\<not> exists_path fs (backup_dir dst now) \<longrightarrow>
         (\<forall>rel. file_at fs' (backup_root @ rel)
                  = (if rel \<in> set (source_rels fs src) then file_at fs (dst @ rel) else None))"
  proof (intro impI allI)
    fix y
    assume "\<not> exists_path fs (backup_dir dst now)"
    then have fresh: "\<not> exists_path fs B" by (simp add: B_def)
    have below: "\<not> exists_path fs (B @ z)" for z using fresh exists_prefix by blast
    have nd2: "\<forall>rel\<in>set rs'. \<not> is_dir fs2 (B @ rel)"
    proof
      fix rel assume r: "rel \<in> set rs'"
      with ne' have "rel \<noteq> []" by auto
      then have a: "\<not> prefix (B @ rel) B" by (simp add: prefix_def)
      have b: "\<not> is_dir fs (B @ rel)" using below [of rel] by (simp add: exists_path_iff)
      have c: "\<not> prefix (B @ rel) (dst @ z)" for z
        using out by (meson append_prefixD prefixI)
      from a b c show "\<not> is_dir fs2 (B @ rel)" by (simp add: d1 d2)
    qed
    note w = backup_rels_written [OF bk' pf' ne' out nd2]
    have none: "file_at fs (B @ z) = None" for z using below [of z] by (simp add: exists_path_iff)
    have "file_at fs3 (B @ y) = (if y \<in> set rs then file_at fs (dst @ y) else None)"
    proof (cases "y \<in> set rs'")
      case True
      with w have "file_at fs3 (B @ y) = file_at fs2 (dst @ y)" by blast
      with True sub f1 f2 show ?thesis by auto
    next
      case False
      then have "\<forall>rel\<in>set rs'. B @ y \<noteq> B @ rel" by auto
      with w have "file_at fs3 (B @ y) = file_at fs2 (B @ y)" by blast
      then have n: "file_at fs3 (B @ y) = None" by (simp add: f1 f2 none)
      show ?thesis
      proof (cases "y \<in> set rs")
        case True
        with False have "\<not> exists_path fs (dst @ y)" by (simp add: rs'_def)
        then have "file_at fs (dst @ y) = None" by (simp add: exists_path_iff)
        with True n show ?thesis by simp
      next
        case False
        with n show ?thesis by simp
      qed
    qed
    with frB br show "file_at fs' (backup_root @ y)
        = (if y \<in> set (source_rels fs src) then file_at fs (dst @ y) else None)"
      by (simp add: rs_def)
  qed
  show "\<forall>rel. file_at fs' (src @ rel) = file_at fs (src @ rel)"
  proof
    fix x
    have "\<forall>a\<in>set rs. src @ x \<noteq> dst @ a" using ap by blast
    with fr f3s show "file_at fs' (src @ x) = file_at fs (src @ x)" by simp
  qed
  have "source_files fs' src = source_files fs3 src"
    using cp' sd by (rule copy_rels_source_files)
  then show "source_files fs' src = source_files fs src" by (simp add: s1 s2 s3)
qed

section \<open>When the passes succeed\<close>

lemma mkdir_succeeds: "(\<forall>q. prefix q d \<longrightarrow> file_at t q = None) \<Longrightarrow> \<exists>t'. mkdir t d = Inr t'"
proof (induction t d rule: mkdir.induct)
  case (1 es)
  then show ?case by simp
next
  case (2 c p)
  then have "file_at (File c) [] = None" by simp
  then show ?case by (simp add: file_at_Nil)
next
  case (3 es n p)
  show ?case
  proof (cases "map_of es n")
    case None
    then show ?thesis by simp
  next
    case (Some t)
    have "\<forall>q. prefix q p \<longrightarrow> file_at t q = None"
    proof (intro allI impI)
      fix q assume "prefix q p"
      then have "prefix (n # q) (n # p)" by simp
      with "3.prems" have "file_at (Dir es) (n # q) = None" by blast
      with Some show "file_at t q = None" by (simp add: file_at_Cons)
    qed
    from "3.IH" [OF Some this] Some show ?thesis by auto
  qed
qed

lemma write_file_succeeds:
  "is_dir t d \<Longrightarrow> \<not> is_dir t (d @ [n]) \<Longrightarrow> \<exists>t'. write_file t (d @ [n]) c = Inr t'"
proof (induction d arbitrary: t)
  case Nil
  then obtain es where t: "t = Dir es" by (auto simp: is_dir_Nil)
  show ?case
  proof (cases "map_of es n")
    case None
    with t show ?thesis by simp
  next
    case (Some u)
    with Nil.prems(2) t have "\<not> is_dir u []" by (simp add: is_dir_Cons)
    then obtain old where "u = File old" by (cases u) (auto simp: is_dir_Nil)
    with Some t show ?thesis by simp
  qed
next
  case (Cons m d)
  from Cons.prems(1) obtain es u where t: "t = Dir es" and u: "map_of es m = Some u" and ud: "is_dir u d"
    by (cases t) (auto simp: is_dir_File is_dir_Cons split: option.splits)
  from Cons.prems(2) t u have "\<not> is_dir u (d @ [n])" by (simp add: is_dir_Cons)
  from Cons.IH [OF ud this] t u show ?case by auto
qed

lemma copy2_succeeds:
  assumes "file_at fs p \<noteq> None" and "is_dir fs d" and "\<not> is_dir fs (d @ [n])" and "d @ [n] \<noteq> p"
  shows "\<exists>fs'. copy2 fs p (d @ [n]) = Inr fs'"
proof -
  from assms(1) obtain c where "lookup fs p = Some (File c)"
    by (auto simp: file_at_def split: option.splits node.splits)
  with assms(3,4) write_file_succeeds [OF assms(2,3)] show ?thesis
    by (simp add: copy2_def)
qed

lemma discover_rels_succeeds:
  assumes "\<forall>rel\<in>set rs. \<forall>q. prefix q (dst @ butlast rel) \<longrightarrow> file_at fs q = None" and "[] \<notin> set rs"
  shows "\<exists>ftr fs1. discover_rels dst rs acc fs = (Inr ftr, fs1)"
  using assms
proof (induction rs arbitrary: acc fs)
  case Nil
  then show ?case by simp
next
  case (Cons rel rs)
  from Cons.prems(2) have ne: "rel \<noteq> []" and rest: "[] \<notin> set rs" by auto
  from Cons.prems(1) have "\<forall>q. prefix q (dst @ butlast rel) \<longrightarrow> file_at fs q = None" by simp
  from mkdir_succeeds [OF this] obtain fs0 where m: "mkdir fs (parent (dst @ rel)) = Inr fs0"
    by (auto simp: parent_append [OF ne])
  have "\<forall>rel\<in>set rs. \<forall>q. prefix q (dst @ butlast rel) \<longrightarrow> file_at fs0 q = None"
    using Cons.prems(1) mkdir_file_at [OF m] by simp
  from Cons.IH [OF this rest] m show ?case by simp
qed

lemma backup_rels_succeeds:
  assumes "\<forall>a\<in>set rs. \<forall>b\<in>set rs. \<not> strict_prefix a b" and "[] \<notin> set rs"
    and "\<forall>q. prefix B q \<longrightarrow> \<not> prefix dst q"
    and "\<forall>rel\<in>set rs. file_at fs (dst @ rel) \<noteq> None \<and> \<not> is_dir fs (B @ rel)
           \<and> (\<forall>q. prefix q (B @ butlast rel) \<longrightarrow> file_at fs q = None)"
  shows "\<exists>u fs'. backup_original_files dst (map ((@) dst) rs) B fs = (Inr u, fs')"
  using assms
proof (induction rs arbitrary: fs)
  case Nil
  then show ?case by simp
next
  case (Cons rel rs)
  from Cons.prems(2) have ne: "rel \<noteq> []" and rest: "[] \<notin> set rs" by auto
  from Cons.prems(1) have pf: "\<forall>a\<in>set rs. \<forall>b\<in>set rs. \<not> strict_prefix a b" by auto
  from Cons.prems(4) have "\<forall>q. prefix q (B @ butlast rel) \<longrightarrow> file_at fs q = None" by simp
  from mkdir_succeeds [OF this] obtain fs1 where m: "mkdir fs (parent (B @ rel)) = Inr fs1"
    by (auto simp: parent_append [OF ne])
  have f1: "file_at fs1 q = file_at fs q" for q using m by (rule mkdir_file_at)
  have nb: "\<not> prefix (B @ a) (B @ butlast rel)" if "a \<in> set (rel # rs)" for a
    using not_below_parent [OF Cons.prems(1,2) that, of rel B] by simp
  have d1: "is_dir fs1 (B @ a) = is_dir fs (B @ a)" if "a \<in> set (rel # rs)" for a
    using mkdir_is_dir_iff [OF m] parent_append [OF ne, of B] nb [OF that] by simp
  from d1 [of rel] Cons.prems(4) have nd: "\<not> is_dir fs1 (B @ rel)" by simp
  have par: "is_dir fs1 (B @ butlast rel)" using mkdir_is_dir [OF m] by (simp add: parent_append [OF ne])
  have diff: "dst @ x \<noteq> B @ y" for x y
    using Cons.prems(3) by (metis prefixI)
  have rel_split: "(B @ butlast rel) @ [last rel] = B @ rel" using ne by simp
  have src_file: "file_at fs1 (dst @ rel) \<noteq> None" using Cons.prems(4) f1 by simp
  have nd': "\<not> is_dir fs1 ((B @ butlast rel) @ [last rel])" unfolding rel_split by (rule nd)
  have ne': "(B @ butlast rel) @ [last rel] \<noteq> dst @ rel"
    unfolding rel_split using diff [of rel rel] by metis
  from copy2_succeeds [OF src_file par nd' ne'] obtain fs2 where
    "copy2 fs1 (dst @ rel) ((B @ butlast rel) @ [last rel]) = Inr fs2" ..
  then have c: "copy2 fs1 (dst @ rel) (B @ rel) = Inr fs2" by (simp only: rel_split)
  note cp = copy2_plain [OF c nd]
  have o: "q \<noteq> B @ rel \<Longrightarrow> file_at fs2 q = file_at fs q" for q using cp f1 by simp
  have pre: "\<forall>a\<in>set rs. file_at fs2 (dst @ a) \<noteq> None \<and> \<not> is_dir fs2 (B @ a)
           \<and> (\<forall>q. prefix q (B @ butlast a) \<longrightarrow> file_at fs2 q = None)"
  proof
    fix a assume a: "a \<in> set rs"
    then have a': "a \<in> set (rel # rs)" by simp
    have 1: "file_at fs2 (dst @ a) \<noteq> None" using o [of "dst @ a"] diff Cons.prems(4) a by simp
    have 2: "\<not> is_dir fs2 (B @ a)" using cp d1 [OF a'] Cons.prems(4) a by simp
    have 3: "file_at fs2 q = None" if "prefix q (B @ butlast a)" for q
    proof -
      have "q \<noteq> B @ rel"
        using not_below_parent [OF Cons.prems(1,2), of rel a B] a that by auto
      with o that Cons.prems(4) a show ?thesis by simp
    qed
    from 1 2 3 show "file_at fs2 (dst @ a) \<noteq> None \<and> \<not> is_dir fs2 (B @ a)
           \<and> (\<forall>q. prefix q (B @ butlast a) \<longrightarrow> file_at fs2 q = None)" by blast
  qed
  from Cons.IH [OF pf rest Cons.prems(3) pre] m c show ?case
    by (simp add: relative_to_append Let_def)
qed

lemma copy_rels_succeeds:
  assumes "\<forall>a\<in>set rs. \<forall>b\<in>set rs. \<not> strict_prefix a b" and "[] \<notin> set rs"
    and "\<forall>x y. src @ x \<noteq> dst @ y"
    and "\<forall>rel\<in>set rs. file_at fs (src @ rel) \<noteq> None \<and> \<not> is_dir fs (dst @ rel)
           \<and> (\<forall>q. prefix q (dst @ butlast rel) \<longrightarrow> file_at fs q = None)"
  shows "\<exists>counts' fs'. copy_rels src dst rs counts fs = (Inr counts', fs')"
  using assms
proof (induction rs arbitrary: fs counts)
  case Nil
  then show ?case by simp
next
  case (Cons rel rs)
  obtain c0 o0 where counts: "counts = (c0, o0)" by (cases counts)
  from Cons.prems(2) have ne: "rel \<noteq> []" and rest: "[] \<notin> set rs" by auto
  from Cons.prems(1) have pf: "\<forall>a\<in>set rs. \<forall>b\<in>set rs. \<not> strict_prefix a b" by auto
  from Cons.prems(4) have "\<forall>q. prefix q (dst @ butlast rel) \<longrightarrow> file_at fs q = None" by simp
  from mkdir_succeeds [OF this] obtain fs1 where m: "mkdir fs (parent (dst @ rel)) = Inr fs1"
    by (auto simp: parent_append [OF ne])
  have f1: "file_at fs1 q = file_at fs q" for q using m by (rule mkdir_file_at)
  have nb: "\<not> prefix (dst @ a) (dst @ butlast rel)" if "a \<in> set (rel # rs)" for a
    using not_below_parent [OF Cons.prems(1,2) that, of rel dst] by simp
  have d1: "is_dir fs1 (dst @ a) = is_dir fs (dst @ a)" if "a \<in> set (rel # rs)" for a
    using mkdir_is_dir_iff [OF m] parent_append [OF ne, of dst] nb [OF that] by simp
  from d1 [of rel] Cons.prems(4) have nd: "\<not> is_dir fs1 (dst @ rel)" by simp
  have par: "is_dir fs1 (dst @ butlast rel)" using mkdir_is_dir [OF m] by (simp add: parent_append [OF ne])
  have rel_split: "(dst @ butlast rel) @ [last rel] = dst @ rel" using ne by simp
  have src_file: "file_at fs1 (src @ rel) \<noteq> None" using Cons.prems(4) f1 by simp
  have nd': "\<not> is_dir fs1 ((dst @ butlast rel) @ [last rel])" unfolding rel_split by (rule nd)
  have ne': "(dst @ butlast rel) @ [last rel] \<noteq> src @ rel"
    unfolding rel_split using Cons.prems(3) by metis
  from copy2_succeeds [OF src_file par nd' ne'] obtain fs2 where
    "copy2 fs1 (src @ rel) ((dst @ butlast rel) @ [last rel]) = Inr fs2" ..
  then have c: "copy2 fs1 (src @ rel) (dst @ rel) = Inr fs2" by (simp only: rel_split)
  note cp = copy2_plain [OF c nd]
  have o: "q \<noteq> dst @ rel \<Longrightarrow> file_at fs2 q = file_at fs q" for q using cp f1 by simp
  have pre: "\<forall>a\<in>set rs. file_at fs2 (src @ a) \<noteq> None \<and> \<not> is_dir fs2 (dst @ a)
           \<and> (\<forall>q. prefix q (dst @ butlast a) \<longrightarrow> file_at fs2 q = None)"
  proof
    fix a assume a: "a \<in> set rs"
    then have a': "a \<in> set (rel # rs)" by simp
    have 1: "file_at fs2 (src @ a) \<noteq> None" using o [of "src @ a"] Cons.prems(3,4) a by simp
    have 2: "\<not> is_dir fs2 (dst @ a)" using cp d1 [OF a'] Cons.prems(4) a by simp
    have 3: "file_at fs2 q = None" if "prefix q (dst @ butlast a)" for q
    proof -
      have "q \<noteq> dst @ rel"
        using not_below_parent [OF Cons.prems(1,2), of rel a dst] a that by auto
      with o that Cons.prems(4) a show ?thesis by simp
    qed
    from 1 2 3 show "file_at fs2 (src @ a) \<noteq> None \<and> \<not> is_dir fs2 (dst @ a)
           \<and> (\<forall>q. prefix q (dst @ butlast a) \<longrightarrow> file_at fs2 q = None)" by blast
  qed
  from Cons.IH [OF pf rest Cons.prems(3) pre] m c counts show ?case by simp
qed

lemma copy_tree_over_in_returns:
  assumes "''datetime'' \<in> set names"
    and "discover_rels dst (source_rels fs src) [] fs = (Inr ftr, fs1)"
    and "mkdir fs1 (backup_dir dst now) = Inr fs2"
    and "backup_original_files dst ftr (backup_dir dst now) fs2 = (Inr u, fs3)"
    and "copy_rels src dst (source_rels fs3 src) (0, 0) fs3 = (Inr (copied, overwritten), fs')"
  shows "copy_tree_over_in names now src dst fs = (Inr (copied, overwritten, backup_dir dst now), fs')"
proof -
  from assms(1) have ts: "timestamp names now = Inr now" by (simp add: timestamp_def)
  from assms(2) have d: "discover src dst (os_walk fs src) [] fs = (Inr ftr, fs1)"
    by (simp add: discover_source_rels)
  from assms(5) have c: "copy_walk src dst (os_walk fs3 src) (0, 0) fs3 = (Inr (copied, overwritten), fs')"
    by (simp add: copy_source_rels)
  have "(if ftr \<noteq> [] then backup_original_files dst ftr (backup_dir dst now) fs2 else (Inr (), fs2))
          = (Inr u, fs3)"
    using assms(4) by (cases "ftr = []") auto
  with ts d c assms(3) show ?thesis
    by (simp add: copy_tree_over_in_def plan_and_backup_def Let_def)
qed

section \<open>The call in this module\<close>

lemma datetime_unbound: "timestamp module_names now = Inl NameError"
  by (simp add: timestamp_def module_names_def)

lemma plan_and_backup_module:
  "plan_and_backup module_names now src dst fs =
     (case discover src dst (os_walk fs src) [] fs of
        (Inl e, fs1) \<Rightarrow> (Inl e, fs1)
      | (Inr files_to_replace, fs1) \<Rightarrow> (Inl NameError, fs1))"
  by (simp add: plan_and_backup_def datetime_unbound split: prod.splits sum.splits)

lemma copy_tree_over_module:
  "copy_tree_over now src dst fs =
     (case discover src dst (os_walk fs src) [] fs of
        (Inl e, fs1) \<Rightarrow> (Inl e, fs1)
      | (Inr files_to_replace, fs1) \<Rightarrow> (Inl NameError, fs1))"
  by (simp add: copy_tree_over_def copy_tree_over_in_def plan_and_backup_module
      split: prod.splits sum.splits)

text \<open>
  C3, as amended.  Every call of \<^verbatim>\<open>copy_tree_over\<close> in this module ends in an exception
  and never returns a result: the \<^verbatim>\<open>NameError\<close> of line 169 when the first loop runs to
  its end, or the \<^verbatim>\<open>OSError\<close> with which a \<^verbatim>\<open>mkdir\<close> of the first loop failed.  Either
  way no backup and no copy has been made: every regular file of the file system is what
  it was, and no regular file has been added.
\<close>

theorem copy_tree_over_never_returns:
  "fst (copy_tree_over now src_root dst_root fs) =
     (case fst (discover src_root dst_root (os_walk fs src_root) [] fs) of
        Inl e \<Rightarrow> Inl OSError
      | Inr files_to_replace \<Rightarrow> Inl NameError)
   \<and> (\<forall>p. file_at (snd (copy_tree_over now src_root dst_root fs)) p = file_at fs p)"
proof -
  obtain res fs1 where d: "discover src_root dst_root (os_walk fs src_root) [] fs = (res, fs1)"
    by (cases "discover src_root dst_root (os_walk fs src_root) [] fs")
  have pre: "\<forall>(r, fl) \<in> set (os_walk fs src_root). prefix src_root r"
    by (auto dest: os_walk_prefix)
  have files: "file_at fs1 p = file_at fs p" for p
    using d by (rule discover_file_at)
  show ?thesis
  proof (cases res)
    case (Inl e)
    with d discover_error [OF pre] have "e = OSError" by blast
    with Inl d files show ?thesis by (simp add: copy_tree_over_module)
  next
    case (Inr files_to_replace)
    with d files show ?thesis by (simp add: copy_tree_over_module)
  qed
qed

text \<open>
  C3 as stated fails where the first loop raises before line 169 is reached: the source
  has \<^verbatim>\<open>d/a.png\<close>, the destination has a regular file \<^verbatim>\<open>d\<close>, and line 166 cannot create
  the directory \<^verbatim>\<open>dst/d\<close>.  The exception is an \<^verbatim>\<open>OSError\<close>, not a \<^verbatim>\<open>NameError\<close>.
\<close>

theorem copy_tree_over_oserror_example:
  "copy_tree_over ''20260101_000000'' [''src''] [''dst''] blocked_fs = (Inl OSError, blocked_fs)
   \<and> fst (copy_tree_over ''20260101_000000'' [''src''] [''dst''] blocked_fs) \<noteq> Inl NameError"
  by (simp add: blocked_fs_def copy_tree_over_module os_walk_def file_names_def relative_to_def parent_def)

text \<open>
  C1, at the scenario of the specification.  \<^verbatim>\<open>b.png\<close> exists in the destination and is to
  be overwritten, so the backup set should hold its old bytes.  The call raises
  \<^verbatim>\<open>NameError\<close> after the first loop, leaves the file system as it was and writes no
  backup.
\<close>

theorem backup_never_written:
  "copy_tree_over ''20260101_000000'' [''src''] [''game'', ''textures''] scenario_fs
     = (Inl NameError, scenario_fs)
   \<and> \<not> exists_path scenario_fs [''game'', ''backups'']
   \<and> file_at scenario_fs [''game'', ''textures'', ''b.png''] = Some ''old b 3 KB''"
  by (simp add: scenario_fs_def copy_tree_over_module os_walk_def file_names_def relative_to_def parent_def
      exists_path_def file_at_def)

text \<open>
  C2.  The source file \<^verbatim>\<open>src/a/b.png\<close> should land at \<^verbatim>\<open>dst/a/b.png\<close> and the call should
  return the counts 1 and 0.  The call creates the directory \<^verbatim>\<open>dst/a\<close>, raises
  \<^verbatim>\<open>NameError\<close> and copies nothing.
\<close>

theorem nothing_copied:
  "copy_tree_over ''20260101_000000'' [''src''] [''dst''] nested_fs
     = (Inl NameError,
        Dir [(''src'', Dir [(''a'', Dir [(''b.png'', File ''new b'')])]), (''dst'', Dir [(''a'', Dir [])])])
   \<and> file_at (snd (copy_tree_over ''20260101_000000'' [''src''] [''dst''] nested_fs))
         [''dst'', ''a'', ''b.png''] = None"
  by (simp add: nested_fs_def copy_tree_over_module os_walk_def file_names_def relative_to_def parent_def
      exists_path_def file_at_def)

text \<open>
  C8.  The second of two calls in succession should return \<^verbatim>\<open>files_overwritten = 1\<close> for
  a source of one file.  It raises \<^verbatim>\<open>NameError\<close> as the first one did.
\<close>

theorem second_call_raises:
  "fst (copy_tree_over ''20260101_000001'' [''src''] [''dst'']
          (snd (copy_tree_over ''20260101_000000'' [''src''] [''dst''] nested_fs)))
     = Inl NameError"
  by (simp add: nested_fs_def copy_tree_over_module os_walk_def file_names_def relative_to_def parent_def
      exists_path_def)

text \<open>
  C9.  A destination file whose relative path is not the relative path of a source file
  has the same bytes after the call as before it.  In this module that holds of every
  call, since none gets as far as the second loop.
\<close>

theorem copy_tree_over_frame:
  "src_root @ rel \<notin> set (source_files fs src_root) \<Longrightarrow>
   file_at (snd (copy_tree_over now src_root dst_root fs)) (dst_root @ rel) = file_at fs (dst_root @ rel)"
proof -
  obtain res fs1 where d: "discover src_root dst_root (os_walk fs src_root) [] fs = (res, fs1)"
    by (cases "discover src_root dst_root (os_walk fs src_root) [] fs")
  have "file_at fs1 (dst_root @ rel) = file_at fs (dst_root @ rel)"
    using d by (rule discover_file_at)
  with d show ?thesis by (cases res) (simp_all add: copy_tree_over_module)
qed

theorem copy_tree_over_frame_witness:
  "[''src'', ''c.png''] \<notin> set (source_files scenario_fs [''src''])
   \<and> file_at (snd (copy_tree_over ''20260101_000000'' [''src''] [''game'', ''textures''] scenario_fs))
         [''game'', ''textures'', ''c.png''] = Some ''c''"
proof -
  have h: "[''src''] @ [''c.png''] \<notin> set (source_files scenario_fs [''src''])"
    by (simp add: scenario_fs_def source_files_def walk_files_def os_walk_def file_names_def)
  have "file_at scenario_fs ([''game'', ''textures''] @ [''c.png'']) = Some ''c''"
    by (simp add: scenario_fs_def file_at_def)
  with copy_tree_over_frame [OF h, of "''20260101_000000''" "[''game'', ''textures'']"] h
  show ?thesis by simp
qed

section \<open>Evaluation of the examples\<close>

lemmas eval_defs =
  copy_tree_over_def copy_tree_over_in_def plan_and_backup_def os_walk_def file_names_def
  relative_to_def parent_def basename_def backup_dir_def copy2_def exists_path_def is_dir_def
  file_at_def timestamp_def names_with_datetime_def module_names_def Let_def

lemmas sky_defs =
  patch_custom_sky_def patch_custom_sky_in_def sky_body_def apply_sky_def iterdir_def
  sky_dirs_of_def sky_dir_def sky_archive_def

section \<open>The backup directory\<close>





section \<open>Before the second loop\<close>

text \<open>
  C5, as amended.  Lines 157 to 174 create directories below the destination root (line
  166) but create and modify no regular file there: whatever their outcome, every path
  below the destination root holds the same file bytes, or no file, as before the call,
  provided the backup directory lies outside the destination tree (the destination root
  is not the root of the drive and is not itself named \<^verbatim>\<open>backups\<close>).  When they raise, the
  call ends with that exception in that state.
\<close>

theorem no_file_touched_before_copy:
  assumes "plan_and_backup names now src_root dst_root fs = (res, fs3)"
    and "dst_root \<noteq> []" and "last dst_root \<noteq> ''backups''"
  shows "file_at fs3 (dst_root @ rel) = file_at fs (dst_root @ rel)
    \<and> (case res of
         Inl e \<Rightarrow> copy_tree_over_in names now src_root dst_root fs = (Inl e, fs3)
       | Inr backup_root \<Rightarrow> True)"
proof -
  have abort: "case res of
         Inl e \<Rightarrow> copy_tree_over_in names now src_root dst_root fs = (Inl e, fs3)
       | Inr backup_root \<Rightarrow> True"
    using assms(1) by (cases res) (simp_all add: copy_tree_over_in_def)
  have "file_at fs3 (dst_root @ rel) = file_at fs (dst_root @ rel)"
  proof -
  let ?q = "dst_root @ rel"
  have out: "\<not> prefix (backup_dir dst_root ts) ?q" for ts
    using assms(2,3) by (rule backup_dir_outside) simp
  obtain r1 fs1 where d: "discover src_root dst_root (os_walk fs src_root) [] fs = (r1, fs1)"
    by (cases "discover src_root dst_root (os_walk fs src_root) [] fs")
  have f1: "file_at fs1 ?q = file_at fs ?q" using d by (rule discover_file_at)
  show ?thesis
  proof (cases r1)
    case (Inl e)
    with assms(1) d f1 show ?thesis by (simp add: plan_and_backup_def)
  next
    case ftr: (Inr ftr)
    show ?thesis
    proof (cases "timestamp names now")
      case (Inl e)
      with assms(1) d ftr f1 show ?thesis by (simp add: plan_and_backup_def)
    next
      case ts: (Inr ts)
      show ?thesis
      proof (cases "mkdir fs1 (backup_dir dst_root ts)")
        case (Inl e)
        with assms(1) d ftr ts f1 show ?thesis by (simp add: plan_and_backup_def)
      next
        case m: (Inr fs2)
        have f2: "file_at fs2 ?q = file_at fs1 ?q" using m by (rule mkdir_file_at)
        show ?thesis
        proof (cases "ftr = []")
          case True
          with assms(1) d ftr ts m f1 f2 show ?thesis by (auto simp: plan_and_backup_def)
        next
          case False
          obtain rb fsb where bk: "backup_original_files dst_root ftr (backup_dir dst_root ts) fs2 = (rb, fsb)"
            by (cases "backup_original_files dst_root ftr (backup_dir dst_root ts) fs2")
          from bk out have f3: "file_at fsb ?q = file_at fs2 ?q" by (rule backup_original_files_file_at)
          from assms(1) d ftr ts m False bk have "fs3 = fsb"
            by (auto simp: plan_and_backup_def split: sum.splits)
          with f1 f2 f3 show ?thesis by simp
        qed
      qed
    qed
  qed
qed
  with abort show ?thesis by simp
qed

theorem no_file_touched_before_copy_witness:
  "plan_and_backup names_with_datetime ''20260101_000000'' [''src''] [''game'', ''textures''] clash_fs
     = (Inl OSError,
        Dir [(''src'', Dir [(''b.png'', File ''new b''), (''sub'', Dir [(''a.png'', File ''new a'')])]),
             (''game'',
              Dir [(''textures'', Dir [(''b.png'', Dir []), (''c.png'', File ''c''), (''sub'', Dir [])]),
                   (''backups'', Dir [(''20260101_000000'', Dir [])])])])
   \<and> [''game'', ''textures''] \<noteq> [] \<and> last [''game'', ''textures''] \<noteq> ''backups''
   \<and> file_at
         (Dir [(''src'', Dir [(''b.png'', File ''new b''), (''sub'', Dir [(''a.png'', File ''new a'')])]),
               (''game'',
                Dir [(''textures'', Dir [(''b.png'', Dir []), (''c.png'', File ''c''), (''sub'', Dir [])]),
                     (''backups'', Dir [(''20260101_000000'', Dir [])])])])
         [''game'', ''textures'', ''c.png'']
       = file_at clash_fs [''game'', ''textures'', ''c.png'']
   \<and> fst (copy_tree_over_in names_with_datetime ''20260101_000000'' [''src''] [''game'', ''textures'']
            clash_fs) = Inl OSError"
proof -
  have h: "plan_and_backup names_with_datetime ''20260101_000000'' [''src''] [''game'', ''textures''] clash_fs
     = (Inl OSError,
        Dir [(''src'', Dir [(''b.png'', File ''new b''), (''sub'', Dir [(''a.png'', File ''new a'')])]),
             (''game'',
              Dir [(''textures'', Dir [(''b.png'', Dir []), (''c.png'', File ''c''), (''sub'', Dir [])]),
                   (''backups'', Dir [(''20260101_000000'', Dir [])])])])"
    by (simp add: clash_fs_def eval_defs)
  have a: "[''game'', ''textures''] \<noteq> []" and b: "last [''game'', ''textures''] \<noteq> ''backups''"
    by simp_all
  from no_file_touched_before_copy [OF h a b, of "[''c.png'']"] h a b show ?thesis by simp
qed

text \<open>
  C5 as stated fails on the directories.  In this module the first loop creates the
  directory \<^verbatim>\<open>dst/a\<close> and the call then raises, the backup pass not even begun.  Under
  names that bind \<^verbatim>\<open>datetime\<close>, the backup of the directory \<^verbatim>\<open>b.png\<close> fails after the first
  loop has created the destination directory \<^verbatim>\<open>sub\<close>.  And where the destination root is
  named \<^verbatim>\<open>backups\<close>, the backup pass itself writes a regular file below the destination
  root.
\<close>

theorem directory_made_before_backup:
  "fst (copy_tree_over ''20260101_000000'' [''src''] [''dst''] nested_fs) = Inl NameError
   \<and> \<not> exists_path nested_fs [''dst'', ''a'']
   \<and> is_dir (snd (copy_tree_over ''20260101_000000'' [''src''] [''dst''] nested_fs)) [''dst'', ''a'']
   \<and> fst (plan_and_backup names_with_datetime ''20260101_000000'' [''src''] [''game'', ''textures'']
            clash_fs) = Inl OSError
   \<and> \<not> exists_path clash_fs [''game'', ''textures'', ''sub'']
   \<and> is_dir (snd (plan_and_backup names_with_datetime ''20260101_000000'' [''src'']
                     [''game'', ''textures''] clash_fs)) [''game'', ''textures'', ''sub'']
   \<and> file_at backups_named_fs [''game'', ''backups'', ''20260101_000000'', ''b.png''] = None
   \<and> file_at (snd (plan_and_backup names_with_datetime ''20260101_000000'' [''src'']
                     [''game'', ''backups''] backups_named_fs))
         [''game'', ''backups'', ''20260101_000000'', ''b.png''] = Some ''old b''"
  by (simp add: nested_fs_def clash_fs_def backups_named_fs_def eval_defs)

section \<open>A source without files\<close>

text \<open>
  C6, as amended.  A source root that does not exist is not detected: \<^verbatim>\<open>os.walk\<close> yields
  nothing for it, no file is found, backed up, copied or counted, and the call goes on as
  for a source tree without files.  Past line 169 it creates the backup directory and
  returns the counts 0 and 0 with the backup path; the one \<^verbatim>\<open>OSError\<close> it can raise is
  that of creating the backup directory.
\<close>

theorem missing_source_not_detected:
  assumes "\<not> exists_path fs src_root"
  shows "source_files fs src_root = []
    \<and> copy_tree_over_in names now src_root dst_root fs =
        (case timestamp names now of
           Inl e \<Rightarrow> (Inl e, fs)
         | Inr ts \<Rightarrow>
             (case mkdir fs (backup_dir dst_root ts) of
                Inl e \<Rightarrow> (Inl e, fs)
              | Inr fs2 \<Rightarrow> (Inr (0, 0, backup_dir dst_root ts), fs2)))"
proof -
  from assms have "lookup fs src_root = None"
    by (simp add: exists_path_def split: option.splits)
  then have nf: "source_files fs src_root = []"
    by (simp add: source_files_def os_walk_def walk_files_Nil)
  with copy_tree_over_in_no_files [OF nf] show ?thesis by simp
qed

theorem missing_source_not_detected_witness:
  "\<not> exists_path scenario_fs [''nosuch'']
   \<and> source_files scenario_fs [''nosuch''] = []
   \<and> copy_tree_over_in names_with_datetime ''20260101_000000'' [''nosuch''] [''game'', ''textures'']
        scenario_fs
     = (Inr (0, 0, [''game'', ''backups'', ''20260101_000000'']),
        Dir [(''src'', Dir [(''a.png'', File ''new a''), (''b.png'', File ''new b 5 KB'')]),
             (''game'',
              Dir [(''textures'', Dir [(''b.png'', File ''old b 3 KB''), (''c.png'', File ''c'')]),
                   (''backups'', Dir [(''20260101_000000'', Dir [])])])])"
proof -
  have h: "\<not> exists_path scenario_fs [''nosuch'']"
    by (simp add: scenario_fs_def exists_path_def)
  from missing_source_not_detected [OF h, of names_with_datetime "''20260101_000000''" "[''game'', ''textures'']"] h
  show ?thesis
    by (simp add: scenario_fs_def timestamp_def names_with_datetime_def backup_dir_def parent_def)
qed

text \<open>
  C6 as stated fails: for a source root that does not exist the call in this module raises
  \<^verbatim>\<open>NameError\<close>, which is no \<^verbatim>\<open>IOError\<close>, and the file system is as it was.
\<close>

theorem missing_source_no_ioerror:
  "\<not> exists_path scenario_fs [''nosuch'']
   \<and> copy_tree_over ''20260101_000000'' [''nosuch''] [''game'', ''textures''] scenario_fs
       = (Inl NameError, scenario_fs)
   \<and> fst (copy_tree_over ''20260101_000000'' [''nosuch''] [''game'', ''textures''] scenario_fs)
       \<noteq> Inl OSError"
  by (simp add: scenario_fs_def eval_defs)




section \<open>The sky patcher and the patch operation\<close>

text \<open>
  C10, as amended.  Applied to a selected skybox and an existing sky directory, the sky
  patcher first deletes every child of the sky directory (lines 265 to 273) and then
  calls \<^verbatim>\<open>copy_tree_over\<close> on the pair: the patch operation starts from a sky directory
  that is empty, so no file that was there is left for it to back up or to keep.
\<close>

theorem sky_dir_emptied_first:
  assumes "iterdir fs (sky_dir target_version) = Inr es"
  shows "lookup (remove_children (sky_dir target_version) (map fst es) fs) (sky_dir target_version)
           = Some (Dir [])
    \<and> apply_sky names now selected target_version fs =
        (case copy_tree_over_in names now selected (sky_dir target_version)
                (remove_children (sky_dir target_version) (map fst es) fs) of
           (Inl e, fs2) \<Rightarrow> (Inl e, fs2)
         | (Inr (copied, overwritten, backup_root), fs2) \<Rightarrow>
             (Inr (Applied copied overwritten backup_root), fs2))"
proof -
  from assms have l: "lookup fs (sky_dir target_version) = Some (Dir es)"
    by (auto simp: iterdir_def split: option.splits node.splits)
  then have e: "exists_path fs (sky_dir target_version)" by (simp add: exists_path_def)
  from remove_children_empties [OF l] e assms show ?thesis
    by (simp add: apply_sky_def Let_def)
qed

theorem sky_dir_emptied_first_witness:
  "iterdir sky_extracted_fs (sky_dir [''v1'']) = Inr [(''b.png'', File ''old b''), (''c.png'', File ''c'')]
   \<and> lookup (remove_children (sky_dir [''v1'']) (map fst [(''b.png'', File ''old b''), (''c.png'', File ''c'')])
               sky_extracted_fs) (sky_dir [''v1''])
       = Some (Dir [])
   \<and> fst (apply_sky names_with_datetime ''20260101_000000'' [''tmp'', ''x1'', ''night''] [''v1'']
            sky_extracted_fs)
       = Inr (Applied 2 0 [''v1'', ''PlatformContent'', ''pc'', ''textures'', ''backups'', ''20260101_000000''])"
proof -
  have h: "iterdir sky_extracted_fs (sky_dir [''v1''])
             = Inr [(''b.png'', File ''old b''), (''c.png'', File ''c'')]"
    by (simp add: sky_extracted_fs_def iterdir_def sky_dir_def)
  have c: "fst (apply_sky names_with_datetime ''20260101_000000'' [''tmp'', ''x1'', ''night''] [''v1'']
            sky_extracted_fs)
       = Inr (Applied 2 0 [''v1'', ''PlatformContent'', ''pc'', ''textures'', ''backups'', ''20260101_000000''])"
    by (simp add: sky_extracted_fs_def sky_defs eval_defs)
  from sky_dir_emptied_first [OF h, of names_with_datetime "''20260101_000000''" "[''tmp'', ''x1'', ''night'']"]
  have "lookup (remove_children (sky_dir [''v1'']) (map fst [(''b.png'', File ''old b''), (''c.png'', File ''c'')])
               sky_extracted_fs) (sky_dir [''v1'']) = Some (Dir [])"
    by (rule conjunct1)
  with h c show ?thesis by blast
qed

text \<open>
  C10 as stated fails.  In this module \<^verbatim>\<open>patch_custom_sky\<close> deletes \<^verbatim>\<open>c.png\<close>, which the
  skybox does not contain, where \<^verbatim>\<open>copy_tree_over\<close> on the same pair leaves it in place.
  Under names that bind \<^verbatim>\<open>datetime\<close> the sky patcher overwrites nothing and backs nothing
  up (\<^verbatim>\<open>b.png\<close> was deleted before), where \<^verbatim>\<open>copy_tree_over\<close> on the same pair overwrites
  \<^verbatim>\<open>b.png\<close> and keeps its old bytes in the backup directory.
\<close>

theorem sky_deletes_and_skips_backup:
  "file_at sky_fs [''v1'', ''PlatformContent'', ''pc'', ''textures'', ''sky'', ''c.png''] = Some ''c''
   \<and> patch_custom_sky ''20260101_000000'' ''y'' [''home''] [''tmp'', ''x1''] (Some sky_archive) (Some 1)
        [''v1''] sky_fs
     = (Inl NameError,
        Dir [(''home'', Dir [(''Documents'', Dir [(''rivalsPayload'', Dir [(''skyboxes.zip'', File ''zip'')])])]),
             (''tmp'', Dir []),
             (''v1'', Dir [(''PlatformContent'', Dir [(''pc'', Dir [(''textures'',
                Dir [(''sky'', Dir [])])])])])])
   \<and> file_at (snd (copy_tree_over ''20260101_000000'' [''tmp'', ''x1'', ''night''] (sky_dir [''v1''])
                     sky_extracted_fs))
         [''v1'', ''PlatformContent'', ''pc'', ''textures'', ''sky'', ''c.png''] = Some ''c''
   \<and> fst (apply_sky names_with_datetime ''20260101_000000'' [''tmp'', ''x1'', ''night''] [''v1'']
            sky_extracted_fs)
       = Inr (Applied 2 0 [''v1'', ''PlatformContent'', ''pc'', ''textures'', ''backups'', ''20260101_000000''])
   \<and> file_at (snd (apply_sky names_with_datetime ''20260101_000000'' [''tmp'', ''x1'', ''night''] [''v1'']
                     sky_extracted_fs))
         [''v1'', ''PlatformContent'', ''pc'', ''textures'', ''backups'', ''20260101_000000'', ''b.png'']
       = None
   \<and> file_at (snd (apply_sky names_with_datetime ''20260101_000000'' [''tmp'', ''x1'', ''night''] [''v1'']
                     sky_extracted_fs))
         [''v1'', ''PlatformContent'', ''pc'', ''textures'', ''sky'', ''c.png'']
       = None
   \<and> fst (copy_tree_over_in names_with_datetime ''20260101_000000'' [''tmp'', ''x1'', ''night'']
            (sky_dir [''v1'']) sky_extracted_fs)
       = Inr (2, 1, [''v1'', ''PlatformContent'', ''pc'', ''textures'', ''backups'', ''20260101_000000''])
   \<and> file_at (snd (copy_tree_over_in names_with_datetime ''20260101_000000'' [''tmp'', ''x1'', ''night'']
                     (sky_dir [''v1'']) sky_extracted_fs))
         [''v1'', ''PlatformContent'', ''pc'', ''textures'', ''backups'', ''20260101_000000'', ''b.png'']
       = Some ''old b''"
  by (simp add: sky_fs_def sky_extracted_fs_def sky_defs eval_defs)

section \<open>The lines after 169\<close>

text \<open>
  What the rest of \<^verbatim>\<open>copy_tree_over\<close> does once the name \<^verbatim>\<open>datetime\<close> is bound and the
  call returns, for a source tree and a destination tree that lie apart from each other
  and from the backup directory, the destination root not being the root of the drive nor
  named \<^verbatim>\<open>backups\<close>.

  Every source file is copied to the same relative path below the destination root,
  \<^verbatim>\<open>copied\<close> is the number of source files and \<^verbatim>\<open>overwritten\<close> the number of those whose
  destination path held a file before.
\<close>

lemma in_source_files: "p \<in> set (source_files fs src) \<Longrightarrow> drop (length src) p \<in> set (source_rels fs src)"
  by (simp add: source_rels_def)

theorem body_copy_complete:
  assumes "copy_tree_over_in names now src_root dst_root fs = (Inr (copied, overwritten, backup_root), fs')"
    and "source_ok fs src_root"
    and "\<not> prefix src_root dst_root" and "\<not> prefix dst_root src_root"
    and "dst_root \<noteq> []" and "last dst_root \<noteq> ''backups''"
    and "\<not> prefix src_root (backup_dir dst_root now)" and "\<not> prefix (backup_dir dst_root now) src_root"
  shows "copied = length (source_files fs src_root)
    \<and> overwritten = length (filter (\<lambda>p. file_at fs (dst_root @ drop (length src_root) p) \<noteq> None)
                                (source_files fs src_root))
    \<and> overwritten \<le> copied
    \<and> (\<forall>p\<in>set (source_files fs src_root).
          file_at fs p \<noteq> None \<and> file_at fs' (dst_root @ drop (length src_root) p) = file_at fs p)"
proof -
  note b = patch_body [OF assms]
  have c: "copied = length (source_files fs src_root)"
    using b(1) by (simp add: source_rels_def)
  have o: "overwritten = length (filter (\<lambda>p. file_at fs (dst_root @ drop (length src_root) p) \<noteq> None)
                                (source_files fs src_root))"
    using b(2) by (simp add: source_rels_def filter_map comp_def)
  have le: "overwritten \<le> copied" unfolding c o by (rule length_filter_le)
  have f: "file_at fs p \<noteq> None \<and> file_at fs' (dst_root @ drop (length src_root) p) = file_at fs p"
    if "p \<in> set (source_files fs src_root)" for p
  proof -
    from source_files_below [OF that] have p: "src_root @ drop (length src_root) p = p" by simp
    from in_source_files [OF that] b(3) source_rels_file [OF assms(2)] p show ?thesis by fastforce
  qed
  from c o le f show ?thesis by blast
qed

text \<open>
  A destination path that is not the relative path of a source file keeps its file, or
  stays without one.
\<close>

theorem body_frame:
  assumes "copy_tree_over_in names now src_root dst_root fs = (Inr (copied, overwritten, backup_root), fs')"
    and "source_ok fs src_root"
    and "\<not> prefix src_root dst_root" and "\<not> prefix dst_root src_root"
    and "dst_root \<noteq> []" and "last dst_root \<noteq> ''backups''"
    and "\<not> prefix src_root (backup_dir dst_root now)" and "\<not> prefix (backup_dir dst_root now) src_root"
    and "src_root @ rel \<notin> set (source_files fs src_root)"
  shows "file_at fs' (dst_root @ rel) = file_at fs (dst_root @ rel)"
  using patch_body(4) [OF assms(1-8)] assms(9) by (simp add: source_rels_set)

text \<open>
  When the backup directory did not exist before the call, it holds after the call exactly
  the files that were overwritten, each at its relative path with the bytes the
  destination had before.
\<close>

theorem body_backup_complete:
  assumes "copy_tree_over_in names now src_root dst_root fs = (Inr (copied, overwritten, backup_root), fs')"
    and "source_ok fs src_root"
    and "\<not> prefix src_root dst_root" and "\<not> prefix dst_root src_root"
    and "dst_root \<noteq> []" and "last dst_root \<noteq> ''backups''"
    and "\<not> prefix src_root (backup_dir dst_root now)" and "\<not> prefix (backup_dir dst_root now) src_root"
    and "\<not> exists_path fs (backup_dir dst_root now)"
  shows "file_at fs' (backup_root @ rel)
           = (if src_root @ rel \<in> set (source_files fs src_root) then file_at fs (dst_root @ rel) else None)"
  using patch_body(5) [OF assms(1-8)] assms(9) by (simp add: source_rels_set)

text \<open>
  A second call that returns leaves every destination file as the first call left it,
  and counts every source file as overwritten.
\<close>

theorem body_idempotent:
  assumes "copy_tree_over_in names now1 src_root dst_root fs = (Inr (copied1, overwritten1, backup1), fs1)"
    and "copy_tree_over_in names now2 src_root dst_root fs1 = (Inr (copied2, overwritten2, backup2), fs2)"
    and "source_ok fs src_root"
    and "\<not> prefix src_root dst_root" and "\<not> prefix dst_root src_root"
    and "dst_root \<noteq> []" and "last dst_root \<noteq> ''backups''"
    and "\<not> prefix src_root (backup_dir dst_root now1)" and "\<not> prefix (backup_dir dst_root now1) src_root"
    and "\<not> prefix src_root (backup_dir dst_root now2)" and "\<not> prefix (backup_dir dst_root now2) src_root"
  shows "file_at fs2 (dst_root @ rel) = file_at fs1 (dst_root @ rel)
    \<and> copied2 = length (source_files fs src_root)
    \<and> overwritten2 = length (source_files fs src_root)"
proof -
  note a = patch_body [OF assms(1,3,4,5,6,7,8,9)]
  have rels: "source_rels fs1 src_root = source_rels fs src_root"
    using a(6) by (simp add: source_rels_def)
  have ok1: "source_ok fs1 src_root"
  proof -
    have "file_at fs1 p = file_at fs p" if "p \<in> set (source_files fs src_root)" for p
      using source_files_below [OF that] a(7) by metis
    with assms(3) a(6) show ?thesis by (simp add: source_ok_def list_all_iff)
  qed
  note b = patch_body [OF assms(2) ok1 assms(4,5,6,7,10,11)]
  have written: "file_at fs1 (dst_root @ r) = file_at fs (src_root @ r) \<and> file_at fs (src_root @ r) \<noteq> None"
    if "r \<in> set (source_rels fs src_root)" for r
    using a(3) that source_rels_file [OF assms(3) that] by simp
  have same: "file_at fs2 (dst_root @ rel) = file_at fs1 (dst_root @ rel)"
  proof (cases "rel \<in> set (source_rels fs src_root)")
    case True
    with b(3) rels have "file_at fs2 (dst_root @ rel) = file_at fs1 (src_root @ rel)" by simp
    with a(7) written [OF True] show ?thesis by simp
  next
    case False
    with b(4) rels show ?thesis by simp
  qed
  have "filter (\<lambda>r. file_at fs1 (dst_root @ r) \<noteq> None) (source_rels fs src_root) = source_rels fs src_root"
    using written by (simp add: filter_id_conv)
  with b(1,2) rels have "copied2 = length (source_rels fs src_root)"
    and "overwritten2 = length (source_rels fs src_root)" by simp_all
  with same show ?thesis by (simp add: source_rels_def)
qed

text \<open>
  The scenario of the specification meets the hypotheses of these theorems, and the call
  returns the counts 2 and 1 with \<^verbatim>\<open>b.png\<close> backed up.
\<close>

lemmas body_defs = source_ok_def source_files_def walk_files_def

theorem body_scenario:
  "copy_tree_over_in names_with_datetime ''20260101_000000'' [''src''] [''game'', ''textures''] scenario_fs
     = (Inr (2, 1, [''game'', ''backups'', ''20260101_000000'']),
        Dir [(''src'', Dir [(''a.png'', File ''new a''), (''b.png'', File ''new b 5 KB'')]),
             (''game'',
              Dir [(''textures'',
                    Dir [(''b.png'', File ''new b 5 KB''), (''c.png'', File ''c''),
                         (''a.png'', File ''new a'')]),
                   (''backups'', Dir [(''20260101_000000'', Dir [(''b.png'', File ''old b 3 KB'')])])])])
   \<and> source_ok scenario_fs [''src'']
   \<and> \<not> prefix [''src''] [''game'', ''textures''] \<and> \<not> prefix [''game'', ''textures''] [''src'']
   \<and> [''game'', ''textures''] \<noteq> [] \<and> last [''game'', ''textures''] \<noteq> ''backups''
   \<and> \<not> prefix [''src''] (backup_dir [''game'', ''textures''] ''20260101_000000'')
   \<and> \<not> prefix (backup_dir [''game'', ''textures''] ''20260101_000000'') [''src'']
   \<and> \<not> exists_path scenario_fs (backup_dir [''game'', ''textures''] ''20260101_000000'')"
  by (simp add: scenario_fs_def eval_defs body_defs)

text \<open>
  The call returns when, besides, the backup directory does not exist yet, no regular file
  lies on the way to it, and the destination holds no directory at the path of a source
  file and no regular file on the way to one.
\<close>

theorem body_returns:
  assumes nm: "''datetime'' \<in> set names"
    and ok: "source_ok fs src_root"
    and sd: "\<not> prefix src_root dst_root" "\<not> prefix dst_root src_root"
    and db: "dst_root \<noteq> []" "last dst_root \<noteq> ''backups''"
    and sb: "\<not> prefix src_root (backup_dir dst_root now)" "\<not> prefix (backup_dir dst_root now) src_root"
    and fresh: "\<not> exists_path fs (backup_dir dst_root now)"
    and way_backup: "\<forall>q. prefix q (backup_dir dst_root now) \<longrightarrow> file_at fs q = None"
    and way_dst: "\<forall>p\<in>set (source_files fs src_root).
           \<not> is_dir fs (dst_root @ drop (length src_root) p)
           \<and> (\<forall>q. strict_prefix q (dst_root @ drop (length src_root) p) \<longrightarrow> file_at fs q = None)"
  shows "\<exists>copied overwritten fs'.
           copy_tree_over_in names now src_root dst_root fs
             = (Inr (copied, overwritten, backup_dir dst_root now), fs')"
proof -
  define B where "B = backup_dir dst_root now"
  define rs where "rs = source_rels fs src_root"
  define rs' where "rs' = filter (\<lambda>rel. exists_path fs (dst_root @ rel)) rs"
  have pf: "\<forall>a\<in>set rs. \<forall>b\<in>set rs. \<not> strict_prefix a b"
    unfolding rs_def using ok by (rule source_rels_prefix_free)
  have ne: "[] \<notin> set rs" unfolding rs_def by (rule source_rels_nonempty)
  have sub: "set rs' \<subseteq> set rs" by (auto simp: rs'_def)
  have pf': "\<forall>a\<in>set rs'. \<forall>b\<in>set rs'. \<not> strict_prefix a b" using pf sub by blast
  have ne': "[] \<notin> set rs'" using ne sub by blast
  have out: "\<forall>q. prefix B q \<longrightarrow> \<not> prefix dst_root q"
    unfolding B_def using backup_dir_outside [OF db] by blast
  have way: "\<not> is_dir fs (dst_root @ rel)
      \<and> (\<forall>q. strict_prefix q (dst_root @ rel) \<longrightarrow> file_at fs q = None)" if "rel \<in> set rs" for rel
  proof -
    from that have "src_root @ rel \<in> set (source_files fs src_root)" by (simp add: rs_def source_rels_set)
    with way_dst show ?thesis by fastforce
  qed
  have way_parent: "file_at fs q = None" if "rel \<in> set rs" "prefix q (dst_root @ butlast rel)" for rel q
  proof -
    from that(1) ne have r: "rel \<noteq> []" by auto
    then have "dst_root @ rel \<noteq> []" by simp
    moreover from r have "butlast (dst_root @ rel) = dst_root @ butlast rel" by (simp add: butlast_append)
    ultimately have "strict_prefix q (dst_root @ rel)" using prefix_butlast [of q "dst_root @ rel"] that(2) by simp
    with way [OF that(1)] show ?thesis by blast
  qed
  have "\<exists>ftr fs1. discover_rels dst_root rs [] fs = (Inr ftr, fs1)"
    using way_parent ne by (intro discover_rels_succeeds) auto
  then obtain ftr fs1 where d: "discover_rels dst_root rs [] fs = (Inr ftr, fs1)" by blast
  have ftr: "ftr = map ((@) dst_root) rs'"
    using discover_rels_found [OF d pf ne] by (simp add: rs'_def)
  have f1: "file_at fs1 q = file_at fs q" for q using d by (rule discover_rels_file_at)
  have d1: "is_dir fs1 q = (is_dir fs q \<or> (\<exists>rel\<in>set rs. prefix q (dst_root @ butlast rel)))" for q
    using d ne by (rule discover_rels_is_dir)
  have "\<forall>q. prefix q B \<longrightarrow> file_at fs1 q = None" using way_backup by (simp add: f1 B_def)
  from mkdir_succeeds [OF this] obtain fs2 where m: "mkdir fs1 B = Inr fs2" ..
  have f2: "file_at fs2 q = file_at fs q" for q using mkdir_file_at [OF m] f1 by simp
  have d2: "is_dir fs2 q = (is_dir fs1 q \<or> prefix q B)" for q
    using m by (rule mkdir_is_dir_iff)
  have fresh': "\<not> exists_path fs B" using fresh by (simp add: B_def)
  have below: "\<not> exists_path fs (B @ z)" for z using fresh' exists_prefix by blast
  have none: "file_at fs (B @ z) = None" for z using below [of z] by (simp add: exists_path_iff)
  have pre_b: "\<forall>rel\<in>set rs'. file_at fs2 (dst_root @ rel) \<noteq> None \<and> \<not> is_dir fs2 (B @ rel)
           \<and> (\<forall>q. prefix q (B @ butlast rel) \<longrightarrow> file_at fs2 q = None)"
  proof
    fix rel assume r: "rel \<in> set rs'"
    then have r0: "rel \<in> set rs" and ex: "exists_path fs (dst_root @ rel)" by (simp_all add: rs'_def)
    from ex way [OF r0] have 1: "file_at fs2 (dst_root @ rel) \<noteq> None" by (simp add: exists_path_iff f2)
    from r ne' have "rel \<noteq> []" by auto
    then have a: "\<not> prefix (B @ rel) B" by (simp add: prefix_def)
    have b: "\<not> is_dir fs (B @ rel)" using below [of rel] by (simp add: exists_path_iff)
    have c: "\<not> prefix (B @ rel) (dst_root @ z)" for z
      using out by (meson append_prefixD prefixI)
    from a b c have 2: "\<not> is_dir fs2 (B @ rel)" by (simp add: d1 d2)
    have 3: "file_at fs2 q = None" if "prefix q (B @ butlast rel)" for q
    proof -
      from that consider "prefix q B" | z where "q = B @ z" by (auto simp: prefix_append)
      then show ?thesis
      proof cases
        case 1
        with way_backup show ?thesis by (simp add: f2 B_def)
      next
        case 2
        with none show ?thesis by (simp add: f2)
      qed
    qed
    from 1 2 3 show "file_at fs2 (dst_root @ rel) \<noteq> None \<and> \<not> is_dir fs2 (B @ rel)
           \<and> (\<forall>q. prefix q (B @ butlast rel) \<longrightarrow> file_at fs2 q = None)" by blast
  qed
  from backup_rels_succeeds [OF pf' ne' out pre_b] obtain u fs3 where
    bk': "backup_original_files dst_root (map ((@) dst_root) rs') B fs2 = (Inr u, fs3)" by blast
  then have bk: "backup_original_files dst_root ftr B fs2 = (Inr u, fs3)" by (simp add: ftr)
  have f3: "\<not> prefix B q \<Longrightarrow> file_at fs3 q = file_at fs q" for q
    using backup_original_files_file_at [OF bk] f2 by simp
  have d3: "is_dir fs3 q = (is_dir fs2 q \<or> (\<exists>rel\<in>set rs'. prefix q (B @ butlast rel)))" for q
    using bk' ne' by (rule backup_rels_is_dir)
  have s3: "source_files fs3 src_root = source_files fs src_root"
    using discover_rels_source_files [OF d] mkdir_source_files [OF m]
      backup_rels_source_files [OF bk'] sb by (simp add: B_def)
  have rs3: "source_rels fs3 src_root = rs" by (simp add: source_rels_def rs_def s3)
  have nbd: "\<not> prefix B (dst_root @ x)" for x using out by auto
  have nbs: "\<not> prefix B (src_root @ x)" for x
    using sb not_below [of B src_root x] by (simp add: B_def)
  have notB: "\<not> prefix (dst_root @ x) (B @ y)" for x y
    using out by (meson append_prefixD prefixI)
  have notB0: "\<not> prefix (dst_root @ x) B" for x
    using notB [of x "[]"] by simp
  have ap: "\<forall>x y. src_root @ x \<noteq> dst_root @ y" using apart [OF sd] by blast
  have pre_c: "\<forall>rel\<in>set rs. file_at fs3 (src_root @ rel) \<noteq> None \<and> \<not> is_dir fs3 (dst_root @ rel)
           \<and> (\<forall>q. prefix q (dst_root @ butlast rel) \<longrightarrow> file_at fs3 q = None)"
  proof
    fix rel assume r: "rel \<in> set rs"
    have 1: "file_at fs3 (src_root @ rel) \<noteq> None"
      using f3 [OF nbs] source_rels_file [OF ok] r by (simp add: rs_def)
    have "\<not> (\<exists>a\<in>set rs. prefix (dst_root @ rel) (dst_root @ butlast a))"
      using not_below_parent [OF pf ne r] by blast
    with way [OF r] notB notB0 have 2: "\<not> is_dir fs3 (dst_root @ rel)"
      by (simp add: d1 d2 d3)
    have 3: "file_at fs3 q = None" if "prefix q (dst_root @ butlast rel)" for q
    proof -
      have "\<not> prefix B q"
      proof
        assume "prefix B q"
        with that have "prefix B (dst_root @ butlast rel)" using prefix_order.order_trans by blast
        with nbd show False by blast
      qed
      with f3 way_parent [OF r that] show ?thesis by simp
    qed
    from 1 2 3 show "file_at fs3 (src_root @ rel) \<noteq> None \<and> \<not> is_dir fs3 (dst_root @ rel)
           \<and> (\<forall>q. prefix q (dst_root @ butlast rel) \<longrightarrow> file_at fs3 q = None)" by blast
  qed
  from copy_rels_succeeds [OF pf ne ap pre_c, of "(0, 0)"] obtain counts' fs' where
    "copy_rels src_root dst_root rs (0, 0) fs3 = (Inr counts', fs')" by blast
  moreover obtain copied overwritten where "counts' = (copied, overwritten)" by (cases counts')
  ultimately have cp: "copy_rels src_root dst_root (source_rels fs3 src_root) (0, 0) fs3
      = (Inr (copied, overwritten), fs')" by (simp add: rs3)
  from copy_tree_over_in_returns [OF nm d [unfolded rs_def] m [unfolded B_def] bk [unfolded B_def] cp]
  show ?thesis by blast
qed

text \<open>The scenario of the specification meets these hypotheses too.\<close>

lemma strict_prefix_Cons_iff:
  "strict_prefix q (y # ys) = (q = [] \<or> (\<exists>zs. q = y # zs \<and> strict_prefix zs ys))"
  by (cases q) auto

theorem body_returns_scenario:
  "''datetime'' \<in> set names_with_datetime
   \<and> (\<forall>q. prefix q (backup_dir [''game'', ''textures''] ''20260101_000000'') \<longrightarrow> file_at scenario_fs q = None)
   \<and> (\<forall>p\<in>set (source_files scenario_fs [''src'']).
           \<not> is_dir scenario_fs ([''game'', ''textures''] @ drop (length [''src'']) p)
           \<and> (\<forall>q. strict_prefix q ([''game'', ''textures''] @ drop (length [''src'']) p)
                  \<longrightarrow> file_at scenario_fs q = None))"
  by (auto simp: scenario_fs_def eval_defs body_defs prefix_Cons strict_prefix_Cons_iff)

end
